theory Spec2Isabelle
  imports Complex_Main "HOL-Library.Multiset"
begin

section \<open>Data model of \<^verbatim>\<open>util/input_data.py\<close>\<close>

text \<open>
  Python exceptions are values. The \<^verbatim>\<open>assert\<close> statements of the source raise
  \<open>AssertionError\<close>; reading an attribute that was never set raises \<open>AttributeError\<close>;
  numpy raises \<open>IndexError\<close> for an index outside an array and \<open>ValueError\<close> for
  shapes that do not fit, for a negative dimension, for an empty \<^verbatim>\<open>randint\<close> range, for an
  empty \<^verbatim>\<open>stack\<close> and for a probability vector that does not sum to one.
\<close>

datatype error = AssertionError | AttributeError | IndexError | ValueError

text \<open>
  A flattened image is a vector of pixel intensities. Pixels are float32 in the source;
  the operations modelled here only move them around, and they are reals in the model.
  A label is a scalar class or a one-hot vector (\<^verbatim>\<open>fake_label = [1] + [0] * 9\<close> or
  \<^verbatim>\<open>fake_label = 0\<close>).
\<close>

type_synonym image = "real list"

datatype label = Scalar int | OneHot "int list"

type_synonym batch = "image list \<times> label list"

text \<open>The class attributes of \<^verbatim>\<open>MNISTDataSet\<close> (lines 100-105).\<close>

definition MNISTDataSet_bsz :: int where
  "MNISTDataSet_bsz = 16"

definition MNISTDataSet_width :: int where
  "MNISTDataSet_width = 45"

definition MNISTDataSet_height :: int where
  "MNISTDataSet_height = 45"

definition MNISTDataSet_num_a :: int where
  "MNISTDataSet_num_a = 3"

definition MNISTDataSet_num_actions :: int where
  "MNISTDataSet_num_actions = 10"

text \<open>
  The class attributes \<^verbatim>\<open>norm\<close>, \<^verbatim>\<open>mu\<close> and \<^verbatim>\<open>std\<close> (lines 106-108) are set once by
  \<^verbatim>\<open>read_data_sets\<close>; the constructor reads them.
\<close>

record norm_params =
  norm_flag :: bool
  mu :: real
  std :: real

text \<open>
  The instance attributes of \<^verbatim>\<open>DataSet\<close>. \<^verbatim>\<open>one_hot\<close> is set by the constructor in fake
  mode only: \<open>None\<close> is the missing attribute.
\<close>

record DataSet =
  num_examples :: int
  images :: "image list"
  labels :: "label list"
  epochs_completed :: int
  index_in_epoch :: int
  one_hot :: "bool option"

text \<open>\<^verbatim>\<open>if x is None: x = default\<close>, the idiom of every optional argument.\<close>

definition or_default :: "'a option \<Rightarrow> 'a \<Rightarrow> 'a" where
  "or_default x d = (case x of None \<Rightarrow> d | Some v \<Rightarrow> v)"

section \<open>Construction\<close>

text \<open>
  \<^verbatim>\<open>DataSet.__init__\<close> with \<^verbatim>\<open>fake_data=False\<close> (lines 122-144). The raw images are
  indexed \<^verbatim>\<open>[index, y, x, depth]\<close>; the two assertions compare the counts and ask for depth
  one (the model reads the depth off every pixel); the reshape flattens each image to
  \<^verbatim>\<open>rows * columns\<close> values. The normalisation of lines 138-139 is float32 arithmetic,
  which is not computed here: \<open>normalise x m d\<close> stands for the pixel that
  \<^verbatim>\<open>images -= self.mu\<close> and \<^verbatim>\<open>images /= self.std\<close> leave in place of \<open>x\<close>.
\<close>

definition DataSet_init ::
  "(real \<Rightarrow> real \<Rightarrow> real \<Rightarrow> real) \<Rightarrow> norm_params \<Rightarrow> real list list list list \<Rightarrow> label list
    \<Rightarrow> error + DataSet" where
  "DataSet_init normalise cls imgs lbls =
     (if length imgs \<noteq> length lbls then Inl AssertionError
      else if \<not> list_all (list_all (list_all (\<lambda>px. length px = 1))) imgs then Inl AssertionError
      else
        (let flat = map (\<lambda>im. concat (concat im)) imgs;
             flat = (if norm_flag cls then map (map (\<lambda>x. normalise x (mu cls) (std cls))) flat
                     else flat)
         in Inr \<lparr>num_examples = int (length imgs), images = flat, labels = lbls,
                 epochs_completed = 0, index_in_epoch = 0, one_hot = None\<rparr>))"

text \<open>
  \<^verbatim>\<open>DataSet.__init__\<close> with \<^verbatim>\<open>fake_data=True\<close> (lines 119-121, 140-144): the pool records
  10000 examples and stores whatever it was given, unchecked.
\<close>

definition DataSet_init_fake :: "image list \<Rightarrow> label list \<Rightarrow> bool \<Rightarrow> DataSet" where
  "DataSet_init_fake imgs lbls oh =
     \<lparr>num_examples = 10000, images = imgs, labels = lbls,
      epochs_completed = 0, index_in_epoch = 0, one_hot = Some oh\<rparr>"

text \<open>The helper \<^verbatim>\<open>fake()\<close> of \<^verbatim>\<open>read_data_sets\<close> (lines 309-310).\<close>

definition fake :: "bool \<Rightarrow> DataSet" where
  "fake oh = DataSet_init_fake [] [] oh"

section \<open>Array primitives\<close>

text \<open>
  \<^verbatim>\<open>xs[start:stop]\<close>: a negative bound counts from the end, and both bounds are clipped
  to the array; a slice never raises.
\<close>

definition slice_index :: "nat \<Rightarrow> int \<Rightarrow> nat" where
  "slice_index n i = (if i < 0 then nat (max (i + int n) 0) else min (nat i) n)"

definition py_slice :: "'a list \<Rightarrow> int \<Rightarrow> int \<Rightarrow> 'a list" where
  "py_slice xs start stop =
     (let a = slice_index (length xs) start; b = slice_index (length xs) stop
      in take (b - a) (drop a xs))"

text \<open>\<^verbatim>\<open>xs[perm]\<close> for an index array \<^verbatim>\<open>perm\<close> of non-negative indices.\<close>

definition fancy_index :: "'a list \<Rightarrow> nat list \<Rightarrow> error + 'a list" where
  "fancy_index xs perm =
     (if list_all (\<lambda>i. i < length xs) perm then Inr (map (\<lambda>i. xs ! i) perm) else Inl IndexError)"

section \<open>\<^verbatim>\<open>next_batch\<close>\<close>

text \<open>
  Lines 174-188: the cursor moves, and at an epoch boundary the pool is reshuffled. The
  result is the pair of the locals \<^verbatim>\<open>start\<close> and \<^verbatim>\<open>end\<close>, beside the pool as the statements
  left it (an exception leaves the attributes already assigned). \<open>perm\<close> is the array that
  \<^verbatim>\<open>numpy.random.shuffle\<close> leaves in \<^verbatim>\<open>perm\<close>; it is read at a reshuffle only.
\<close>

definition next_batch_range :: "nat list \<Rightarrow> int \<Rightarrow> DataSet \<Rightarrow> (error + int \<times> int) \<times> DataSet" where
  "next_batch_range perm batch_size s =
     (let start = index_in_epoch s;
          s = s\<lparr>index_in_epoch := index_in_epoch s + batch_size\<rparr>
      in
        if index_in_epoch s > num_examples s then
          (let s = s\<lparr>epochs_completed := epochs_completed s + 1\<rparr> in
           case fancy_index (images s) perm of
             Inl e \<Rightarrow> (Inl e, s)
           | Inr imgs \<Rightarrow>
               (let s = s\<lparr>images := imgs\<rparr> in
                case fancy_index (labels s) perm of
                  Inl e \<Rightarrow> (Inl e, s)
                | Inr lbls \<Rightarrow>
                    (let s = s\<lparr>labels := lbls\<rparr>;
                         start = 0;
                         s = s\<lparr>index_in_epoch := batch_size\<rparr>
                     in
                       if batch_size \<le> num_examples s then (Inr (start, index_in_epoch s), s)
                       else (Inl AssertionError, s))))
        else (Inr (start, index_in_epoch s), s))"

text \<open>
  \<^verbatim>\<open>DataSet.next_batch\<close> (lines 162-189). With \<^verbatim>\<open>fake_data\<close> set the pool is neither read
  nor changed, except for its attribute \<^verbatim>\<open>one_hot\<close>.
\<close>

definition next_batch :: "nat list \<Rightarrow> int option \<Rightarrow> bool \<Rightarrow> DataSet \<Rightarrow> (error + batch) \<times> DataSet" where
  "next_batch perm batch_size fake_data s =
     (let batch_size = or_default batch_size MNISTDataSet_bsz in
      if fake_data then
        (let fake_image = replicate 784 1 in
         case one_hot s of
           None \<Rightarrow> (Inl AttributeError, s)
         | Some oh \<Rightarrow>
             (let fake_label = (if oh then OneHot (1 # replicate 9 0) else Scalar 0)
              in (Inr (replicate (nat batch_size) fake_image,
                       replicate (nat batch_size) fake_label), s)))
      else
        (case next_batch_range perm batch_size s of
           (Inl e, s') \<Rightarrow> (Inl e, s')
         | (Inr (start, stop), s') \<Rightarrow>
             (Inr (py_slice (images s') start stop, py_slice (labels s') start stop), s')))"

text \<open>
  A pool as the checked constructor leaves it and \<^verbatim>\<open>next_batch\<close> keeps it: as many labels
  as images, and \<^verbatim>\<open>_num_examples\<close> their count.
\<close>

definition wf_pool :: "DataSet \<Rightarrow> bool" where
  "wf_pool s \<longleftrightarrow> num_examples s = int (length (images s)) \<and> length (labels s) = length (images s)"

text \<open>What \<^verbatim>\<open>numpy.random.shuffle\<close> can leave in \<^verbatim>\<open>numpy.arange(n)\<close>: a permutation of it.\<close>

definition is_shuffle :: "int \<Rightarrow> nat list \<Rightarrow> bool" where
  "is_shuffle n perm \<longleftrightarrow> mset perm = mset [0..<nat n]"

text \<open>
  The pool after a sequence of calls, each with its batch size and the permutation its
  reshuffle would draw. A call that raises leaves the pool as it was at the raise.
\<close>

fun next_batch_calls :: "(nat list \<times> int) list \<Rightarrow> DataSet \<Rightarrow> DataSet" where
  "next_batch_calls [] s = s"
| "next_batch_calls ((perm, batch_size) # cs) s =
     next_batch_calls cs (snd (next_batch perm (Some batch_size) False s))"

section \<open>Loops and arrays\<close>

text \<open>
  A \<^verbatim>\<open>for\<close> loop whose body may raise: the body is run on each element in turn and the
  first exception ends the loop.
\<close>

fun fold_err :: "('a \<Rightarrow> 's \<Rightarrow> error + 's) \<Rightarrow> 'a list \<Rightarrow> 's \<Rightarrow> error + 's" where
  "fold_err f [] s = Inr s"
| "fold_err f (x # xs) s = (case f x s of Inl e \<Rightarrow> Inl e | Inr s' \<Rightarrow> fold_err f xs s')"

text \<open>\<^verbatim>\<open>xs[i]\<close> for a loop index \<open>i\<close>, which is never negative.\<close>

definition getitem :: "'a list \<Rightarrow> nat \<Rightarrow> error + 'a" where
  "getitem xs i = (if i < length xs then Inr (xs ! i) else Inl IndexError)"

text \<open>
  The row-major split behind \<^verbatim>\<open>np.reshape\<close>: \<open>chunk k n xs\<close> is the first \<open>n\<close> consecutive
  pieces of length \<open>k\<close> of \<open>xs\<close>.
\<close>

primrec chunk :: "nat \<Rightarrow> nat \<Rightarrow> 'a list \<Rightarrow> 'a list list" where
  "chunk k 0 xs = []"
| "chunk k (Suc n) xs = take k xs # chunk k n (drop k xs)"

text \<open>\<^verbatim>\<open>np.reshape(x, (28, 28))\<close> of one flattened image: the sizes must agree.\<close>

definition reshape_28_28 :: "image \<Rightarrow> error + real list list" where
  "reshape_28_28 x = (if length x = 784 then Inr (chunk 28 28 x) else Inl ValueError)"

text \<open>
  \<^verbatim>\<open>np.reshape(X, (bsz, 28, 28))\<close> of a batch (line 196). The batch is a rectangular array,
  so its size is the length of the rows laid end to end. A negative \<^verbatim>\<open>bsz\<close> raises
  \<open>ValueError\<close> here or, when it is \<open>-1\<close> and the reshape infers the count, at the
  \<^verbatim>\<open>np.zeros((bsz,))\<close> of line 199, with nothing in between.
\<close>

definition reshape_batch :: "image list \<Rightarrow> int \<Rightarrow> error + real list list list" where
  "reshape_batch X bsz =
     (if bsz < 0 \<or> int (length (concat X)) \<noteq> bsz * 784 then Inl ValueError
      else Inr (map (chunk 28 28) (chunk 784 (nat bsz) (concat X))))"

text \<open>\<^verbatim>\<open>xs[::2]\<close>: every other element, from the first.\<close>

fun every_other :: "'a list \<Rightarrow> 'a list" where
  "every_other [] = []"
| "every_other [x] = [x]"
| "every_other (x # y # xs) = x # every_other xs"

text \<open>
  The pairs that numpy's broadcasting combines elementwise for two one-dimensional
  arrays: equal lengths, or one of them of length one.
\<close>

definition broadcast :: "'a list \<Rightarrow> 'b list \<Rightarrow> error + ('a \<times> 'b) list" where
  "broadcast xs ys =
     (if length xs = length ys then Inr (zip xs ys)
      else if length xs = 1 then Inr (map (\<lambda>y. (hd xs, y)) ys)
      else if length ys = 1 then Inr (map (\<lambda>x. (x, hd ys)) xs)
      else Inl ValueError)"

section \<open>\<^verbatim>\<open>random_policy\<close>\<close>

text \<open>
  The probability vector of lines 201-204 is computed in float64. A double is the real
  number it denotes, and an operation returns the double nearest to the exact result, ties
  going to the even significand (IEEE 754, the default rounding). \<open>binade n x 0\<close> is the
  exponent \<open>e\<close> with \<open>2 ^ e \<le> x < 2 ^ (e + 1)\<close>, searched over \<open>n\<close> steps; 1100 steps
  cover the exponents of the normal doubles. Infinities, NaN and subnormal results are
  outside this model; the constants of lines 201-204 are far from them.
\<close>

definition pow2 :: "int \<Rightarrow> real" where
  "pow2 e = (if 0 \<le> e then 2 ^ nat e else 1 / 2 ^ nat (- e))"

primrec binade :: "nat \<Rightarrow> real \<Rightarrow> int \<Rightarrow> int" where
  "binade 0 x e = e"
| "binade (Suc n) x e =
     (if 2 \<le> x then binade n (x / 2) (e + 1)
      else if x < 1 then binade n (x * 2) (e - 1)
      else e)"

definition round_even :: "real \<Rightarrow> int" where
  "round_even x =
     (let f = \<lfloor>x\<rfloor>; d = x - real_of_int f
      in if d < 1 / 2 then f else if 1 / 2 < d then f + 1 else if even f then f else f + 1)"

text \<open>The double nearest to \<open>x\<close>: a significand of 53 bits in the binade of \<open>x\<close>.\<close>

definition to_double :: "real \<Rightarrow> real" where
  "to_double x =
     (if x = 0 then 0
      else
        (let a = \<bar>x\<bar>;
             e = binade 1100 a 0;
             ulp = pow2 (e - 52);
             r = real_of_int (round_even (a / ulp)) * ulp
         in if x < 0 then - r else r))"

text \<open>Float64 division, multiplication and addition.\<close>

definition fdiv :: "real \<Rightarrow> real \<Rightarrow> real" where
  "fdiv x y = to_double (x / y)"

definition fmul :: "real \<Rightarrow> real \<Rightarrow> real" where
  "fmul x y = to_double (x * y)"

definition fadd :: "real \<Rightarrow> real \<Rightarrow> real" where
  "fadd x y = to_double (x + y)"

text \<open>
  Lines 201-203: the weights of one example. \<^verbatim>\<open>H / (num_actions - 1)\<close> is a true
  division of two integers, which gives a float, and the product with
  \<^verbatim>\<open>np.ones((num_actions,))\<close> multiplies it by 1.0. \<^verbatim>\<open>p[y[i]] = H\<close> needs an integer
  label inside the array (a negative index counts from the end); a one-hot label is not
  an index.
\<close>

definition action_weights :: "label \<Rightarrow> error + real list" where
  "action_weights yi =
     (let H = 5;
          p = replicate (nat MNISTDataSet_num_actions)
                (fmul (fdiv (real_of_int H) (real_of_int (MNISTDataSet_num_actions - 1))) 1)
      in case yi of
           OneHot _ \<Rightarrow> Inl IndexError
         | Scalar v \<Rightarrow>
             if v < - MNISTDataSet_num_actions \<or> MNISTDataSet_num_actions \<le> v then Inl IndexError
             else Inr (p[nat (if v < 0 then v + MNISTDataSet_num_actions else v) := real_of_int H]))"

text \<open>Line 204, \<^verbatim>\<open>p /= self.num_actions\<close>: the probability vector handed to the sampler.\<close>

definition action_probs :: "label \<Rightarrow> error + real list" where
  "action_probs yi =
     (case action_weights yi of
        Inl e \<Rightarrow> Inl e
      | Inr p \<Rightarrow> Inr (map (\<lambda>x. fdiv x (real_of_int MNISTDataSet_num_actions)) p))"

text \<open>
  \<^verbatim>\<open>np.random.choice(a, p=p)\<close>: numpy raises \<open>ValueError\<close> unless \<open>p\<close> has \<open>a\<close> entries, none
  negative, whose sum is 1 within the tolerance \<^verbatim>\<open>sqrt(finfo(float64).eps)\<close>, which is
  \<open>2 ^ -26\<close>. numpy takes a compensated float sum; the model takes the exact sum of the
  entries, which differs from it by a few units of \<open>2 ^ -53\<close>. \<open>draw\<close> is the sampled
  value.
\<close>

definition random_choice :: "int \<Rightarrow> real list \<Rightarrow> int \<Rightarrow> error + int" where
  "random_choice a p draw =
     (if int (length p) = a \<and> list_all (\<lambda>x. 0 \<le> x) p \<and> \<bar>sum_list p - 1\<bar> \<le> 1 / 2 ^ 26
      then Inr draw
      else Inl ValueError)"

text \<open>The body of the loop of lines 200-205; \<open>choice i\<close> is the value sampled for example \<open>i\<close>.\<close>

definition policy_action :: "label list \<Rightarrow> (nat \<Rightarrow> int) \<Rightarrow> nat \<Rightarrow> int list \<Rightarrow> error + int list" where
  "policy_action y choice i action =
     (case getitem y i of
        Inl e \<Rightarrow> Inl e
      | Inr yi \<Rightarrow>
          (case action_probs yi of
             Inl e \<Rightarrow> Inl e
           | Inr p \<Rightarrow>
               (case random_choice MNISTDataSet_num_actions p (choice i) of
                  Inl e \<Rightarrow> Inl e
                | Inr a \<Rightarrow> Inr (action[i := a]))))"

text \<open>\<^verbatim>\<open>np.clip(x, lo, hi)\<close> on one element.\<close>

definition clip :: "int \<Rightarrow> int \<Rightarrow> int \<Rightarrow> int" where
  "clip x lo hi = min (max x lo) hi"

text \<open>Line 206 on one example: \<^verbatim>\<open>np.clip(2-np.abs(action-y),0,5)\<close>.\<close>

definition policy_reward :: "int \<Rightarrow> int \<Rightarrow> int" where
  "policy_reward a yi = clip (2 - \<bar>a - yi\<bar>) 0 5"

definition is_Scalar :: "label \<Rightarrow> bool" where
  "is_Scalar l = (case l of Scalar _ \<Rightarrow> True | OneHot _ \<Rightarrow> False)"

definition scalar_of :: "label \<Rightarrow> int" where
  "scalar_of l = (case l of Scalar v \<Rightarrow> v | OneHot _ \<Rightarrow> 0)"

text \<open>
  Line 206 on the arrays. The batch \<open>y\<close> is a slice of the pool's label array \<open>pool\<close>, and
  has its dimensions. Of a pool of integer labels it is one-dimensional, and is combined
  with the action array by broadcasting. Of a one-hot pool it has ten columns, also when
  it has no rows; the loop has raised before for every \<^verbatim>\<open>bsz\<close> but 0, and then the action
  array is empty and does not broadcast against ten columns.
\<close>

definition policy_rewards :: "int list \<Rightarrow> label list \<Rightarrow> label list \<Rightarrow> error + int list" where
  "policy_rewards action y pool =
     (if list_all is_Scalar pool \<and> list_all is_Scalar y then
        (case broadcast action (map scalar_of y) of
           Inl e \<Rightarrow> Inl e
         | Inr ps \<Rightarrow> Inr (map (\<lambda>(a, yi). policy_reward a yi) ps))
      else Inl ValueError)"

text \<open>
  \<^verbatim>\<open>DataSet.random_policy\<close> (lines 191-207). \<open>onehot\<close> stands for the helper
  \<^verbatim>\<open>util.util_funcs.onehot\<close>, which is not part of the sources at hand; \<open>perm\<close> and
  \<open>choice\<close> are the random draws.
\<close>

definition random_policy ::
  "(int list \<Rightarrow> 'h) \<Rightarrow> nat list \<Rightarrow> (nat \<Rightarrow> int) \<Rightarrow> int option \<Rightarrow> DataSet
    \<Rightarrow> (error + real list list list \<times> 'h \<times> int list) \<times> DataSet" where
  "random_policy onehot perm choice bsz s =
     (let bsz = or_default bsz MNISTDataSet_bsz in
      case next_batch perm (Some bsz) False s of
        (Inl e, s') \<Rightarrow> (Inl e, s')
      | (Inr (X, y), s') \<Rightarrow>
          (case reshape_batch X bsz of
             Inl e \<Rightarrow> (Inl e, s')
           | Inr X \<Rightarrow>
               (case fold_err (policy_action y choice) [0..<nat bsz] (replicate (nat bsz) 0) of
                  Inl e \<Rightarrow> (Inl e, s')
                | Inr action \<Rightarrow>
                    (case policy_rewards action y (labels s') of
                       Inl e \<Rightarrow> (Inl e, s')
                     | Inr reward \<Rightarrow>
                         (Inr (map (\<lambda>im. map every_other (every_other im)) X,
                               onehot action, reward), s')))))"

section \<open>\<^verbatim>\<open>next_mix_batch\<close>\<close>

text \<open>\<^verbatim>\<open>np.zeros((height, width))\<close>: a negative dimension raises.\<close>

definition np_zeros :: "int \<Rightarrow> int \<Rightarrow> error + real list list" where
  "np_zeros h w =
     (if h < 0 \<or> w < 0 then Inl ValueError else Inr (replicate (nat h) (replicate (nat w) 0)))"

text \<open>
  \<^verbatim>\<open>np.random.randint(low, high, (n,))\<close>: an empty range or a negative size raises;
  \<open>draw k\<close> is the value sampled for position \<open>k\<close>.
\<close>

definition randint :: "int \<Rightarrow> int \<Rightarrow> int \<Rightarrow> (nat \<Rightarrow> int) \<Rightarrow> error + int list" where
  "randint low high n draw =
     (if high \<le> low \<or> n < 0 then Inl ValueError else Inr (map draw [0..<nat n]))"

text \<open>What \<^verbatim>\<open>randint(low, high, ...)\<close> can sample: values from \<open>low\<close> up to \<open>high - 1\<close>.\<close>

definition in_range :: "int \<Rightarrow> int \<Rightarrow> (nat \<Rightarrow> int) \<Rightarrow> bool" where
  "in_range low high draw \<longleftrightarrow> (\<forall>k. low \<le> draw k \<and> draw k < high)"

text \<open>The local \<^verbatim>\<open>width2\<close> of line 277, the side of a pasted digit.\<close>

definition width2 :: int where
  "width2 = 14"

text \<open>
  One axis of numpy's broadcasting in an assignment: the source has the length of the
  target, or length one and is repeated.
\<close>

definition fit :: "nat \<Rightarrow> 'a list \<Rightarrow> error + 'a list" where
  "fit n xs =
     (if length xs = n then Inr xs
      else if length xs = 1 then Inr (replicate n (hd xs))
      else Inl ValueError)"

text \<open>
  \<^verbatim>\<open>im[h:h+width2, v:v+width2] = im_digit\<close> (line 291) on a canvas whose rows have \<open>W\<close>
  entries. The two slices select the block that the canvas has in these ranges (none
  outside the canvas); the digit must have the shape of that block, up to broadcasting,
  or the assignment raises and writes nothing.
\<close>

definition paste :: "real list list \<Rightarrow> nat \<Rightarrow> int \<Rightarrow> int \<Rightarrow> real list list \<Rightarrow> error + real list list" where
  "paste im W h v im_digit =
     (let r0 = slice_index (length im) h;
          nr = slice_index (length im) (h + width2) - r0;
          c0 = slice_index W v;
          nc = slice_index W (v + width2) - c0
      in case fit nr im_digit of
           Inl e \<Rightarrow> Inl e
         | Inr rows \<Rightarrow>
             if list_all (\<lambda>row. length row = nc \<or> length row = 1) rows then
               Inr (take r0 im
                    @ map (\<lambda>(old, new).
                             take c0 old
                             @ (if length new = nc then new else replicate nc (hd new))
                             @ drop (c0 + nc) old)
                        (zip (take nr (drop r0 im)) rows)
                    @ drop (r0 + nr) im)
             else Inl ValueError)"

text \<open>
  The body of the loop over \<open>n\<close> (lines 286-292) for scene \<open>b\<close>. \<open>vert\<close> and \<open>hor\<close> are the
  two arrays drawn for the scene; \<open>zoom\<close> stands for \<^verbatim>\<open>scipy.ndimage.zoom(., 0.5)\<close>.
\<close>

definition place_digit ::
  "(real list list \<Rightarrow> real list list) \<Rightarrow> image list \<Rightarrow> label list \<Rightarrow> int list \<Rightarrow> int list
    \<Rightarrow> int \<Rightarrow> int \<Rightarrow> nat \<Rightarrow> nat \<Rightarrow> real list list \<times> label list
    \<Rightarrow> error + real list list \<times> label list" where
  "place_digit zoom X Y vert hor width NUM b n acc =
     (case acc of (im, lbl) \<Rightarrow>
      case getitem hor n of
        Inl e \<Rightarrow> Inl e
      | Inr h \<Rightarrow>
          (case getitem vert n of
             Inl e \<Rightarrow> Inl e
           | Inr vn \<Rightarrow>
               (let v = min (vn + width2 * int n) (width - width2);
                    i = nat (int b * NUM + int n)
                in case getitem X i of
                     Inl e \<Rightarrow> Inl e
                   | Inr x \<Rightarrow>
                       (case reshape_28_28 x of
                          Inl e \<Rightarrow> Inl e
                        | Inr x28 \<Rightarrow>
                            (let im_digit = zoom x28 in
                             case paste im (nat width) h v im_digit of
                               Inl e \<Rightarrow> Inl e
                             | Inr im \<Rightarrow>
                                 (case getitem Y i of
                                    Inl e \<Rightarrow> Inl e
                                  | Inr yi \<Rightarrow> Inr (im, lbl @ [yi])))))))"

text \<open>
  The body of the loop over \<open>b\<close> (lines 281-294). \<^verbatim>\<open>int(width/3)\<close> is \<open>width div 3\<close>: a
  negative width has raised in \<^verbatim>\<open>np.zeros\<close> before. \<open>vert b\<close> and \<open>hor b\<close> are the draws
  for scene \<open>b\<close>. The lists \<^verbatim>\<open>IM\<close> and \<^verbatim>\<open>LBL\<close> are filled in the order of \<open>b\<close>.
\<close>

definition mix_scene ::
  "(real list list \<Rightarrow> real list list) \<Rightarrow> image list \<Rightarrow> label list
    \<Rightarrow> (nat \<Rightarrow> nat \<Rightarrow> int) \<Rightarrow> (nat \<Rightarrow> nat \<Rightarrow> int) \<Rightarrow> int \<Rightarrow> int \<Rightarrow> int \<Rightarrow> nat
    \<Rightarrow> real list list list \<times> label list list
    \<Rightarrow> error + real list list list \<times> label list list" where
  "mix_scene zoom X Y vert hor width height NUM b acc =
     (case acc of (IM, LBL) \<Rightarrow>
      case np_zeros height width of
        Inl e \<Rightarrow> Inl e
      | Inr im \<Rightarrow>
          (case randint 0 (max (width div 3 - width2) 1) 3 (vert b) of
             Inl e \<Rightarrow> Inl e
           | Inr vs \<Rightarrow>
               (case randint 0 (height - width2) 3 (hor b) of
                  Inl e \<Rightarrow> Inl e
                | Inr hs \<Rightarrow>
                    (case fold_err (place_digit zoom X Y vs hs width NUM b) [0..<nat NUM] (im, []) of
                       Inl e \<Rightarrow> Inl e
                     | Inr (im, lbl) \<Rightarrow> Inr (IM @ [im], LBL @ [lbl])))))"

text \<open>
  \<^verbatim>\<open>np.stack\<close> of a list of arrays: an empty list raises. (The arrays stacked here have
  one shape: canvases of \<^verbatim>\<open>height\<close> by \<^verbatim>\<open>width\<close>, label lists of \<^verbatim>\<open>NUM\<close> entries.)
\<close>

definition np_stack :: "'a list \<Rightarrow> error + 'a list" where
  "np_stack xs = (if xs = [] then Inl ValueError else Inr xs)"

text \<open>
  \<^verbatim>\<open>DataSet.next_mix_batch\<close> (lines 254-303). The result is \<^verbatim>\<open>(IMS, LBLS)\<close>, with
  \<^verbatim>\<open>nhot(LBLS)\<close> beside it when \<^verbatim>\<open>make_hot\<close> is set; \<open>nhot\<close> stands for the helper
  \<^verbatim>\<open>util.util_funcs.nhot\<close>, which is not part of the sources at hand.
\<close>

definition next_mix_batch ::
  "(real list list \<Rightarrow> real list list) \<Rightarrow> (label list list \<Rightarrow> 'h) \<Rightarrow> nat list
    \<Rightarrow> (nat \<Rightarrow> nat \<Rightarrow> int) \<Rightarrow> (nat \<Rightarrow> nat \<Rightarrow> int)
    \<Rightarrow> bool \<Rightarrow> int option \<Rightarrow> int option \<Rightarrow> int option \<Rightarrow> int option \<Rightarrow> DataSet
    \<Rightarrow> (error + real list list list \<times> 'h option \<times> label list list) \<times> DataSet" where
  "next_mix_batch zoom nhot perm vert hor make_hot bsz width height NUM s =
     (let bsz = or_default bsz MNISTDataSet_bsz;
          width = or_default width MNISTDataSet_width;
          NUM = or_default NUM MNISTDataSet_num_a;
          height = or_default height MNISTDataSet_height
      in case next_batch perm (Some (bsz * NUM)) False s of
           (Inl e, s') \<Rightarrow> (Inl e, s')
         | (Inr (X, Y), s') \<Rightarrow>
             (case fold_err (mix_scene zoom X Y vert hor width height NUM) [0..<nat bsz] ([], []) of
                Inl e \<Rightarrow> (Inl e, s')
              | Inr (IM, LBL) \<Rightarrow>
                  (case np_stack IM of
                     Inl e \<Rightarrow> (Inl e, s')
                   | Inr IMS \<Rightarrow>
                       (case np_stack LBL of
                          Inl e \<Rightarrow> (Inl e, s')
                        | Inr LBLS \<Rightarrow>
                            (Inr (IMS, if make_hot then Some (nhot LBLS) else None, LBLS), s')))))"

section \<open>\<^verbatim>\<open>simulate_logged_bandit\<close>\<close>

text \<open>
  \<^verbatim>\<open>a in row\<close> for a row of labels: numpy compares every entry of the row with \<open>a\<close>.
\<close>

definition label_in :: "int \<Rightarrow> label list \<Rightarrow> bool" where
  "label_in a row =
     list_ex (\<lambda>l. case l of Scalar v \<Rightarrow> v = a | OneHot vs \<Rightarrow> list_ex (\<lambda>v. v = a) vs) row"

text \<open>The body of the loop of lines 244-246.\<close>

definition bandit_reward ::
  "label list list \<Rightarrow> int list \<Rightarrow> nat \<Rightarrow> real list \<Rightarrow> error + real list" where
  "bandit_reward LBL recommend i reward =
     (case getitem recommend i of
        Inl e \<Rightarrow> Inl e
      | Inr a \<Rightarrow>
          (case getitem LBL i of
             Inl e \<Rightarrow> Inl e
           | Inr row \<Rightarrow> Inr (if label_in a row then reward[i := 1] else reward)))"

text \<open>
  \<^verbatim>\<open>DataSet.simulate_logged_bandit\<close> (lines 232-248). The scenes come from
  \<^verbatim>\<open>self.next_mix_batch()\<close>, called without arguments, so \<^verbatim>\<open>nhot\<close> is never called.
  \<open>recommend\<close> gives the draws of line 241, and \<open>onehot\<close> stands for the helper
  \<^verbatim>\<open>util.util_funcs.onehot\<close>, which is not part of the sources at hand.
\<close>

definition simulate_logged_bandit ::
  "(real list list \<Rightarrow> real list list) \<Rightarrow> (int list \<Rightarrow> 'h) \<Rightarrow> nat list
    \<Rightarrow> (nat \<Rightarrow> nat \<Rightarrow> int) \<Rightarrow> (nat \<Rightarrow> nat \<Rightarrow> int) \<Rightarrow> (nat \<Rightarrow> int) \<Rightarrow> int option \<Rightarrow> DataSet
    \<Rightarrow> (error + real list list list \<times> 'h \<times> real list) \<times> DataSet" where
  "simulate_logged_bandit zoom onehot perm vert hor recommend bsz s =
     (let bsz = or_default bsz MNISTDataSet_bsz in
      case next_mix_batch zoom (\<lambda>_. ()) perm vert hor False None None None None s of
        (Inl e, s') \<Rightarrow> (Inl e, s')
      | (Inr (IM, _, LBL), s') \<Rightarrow>
          (case randint 0 MNISTDataSet_num_actions bsz recommend of
             Inl e \<Rightarrow> (Inl e, s')
           | Inr recommend \<Rightarrow>
               (case fold_err (bandit_reward LBL recommend) [0..<nat bsz] (replicate (nat bsz) 0) of
                  Inl e \<Rightarrow> (Inl e, s')
                | Inr reward \<Rightarrow> (Inr (IM, onehot recommend, reward), s'))))"

section \<open>Shapes\<close>

text \<open>A two-dimensional array of \<open>r\<close> rows and \<open>c\<close> columns.\<close>

definition has_shape :: "nat \<Rightarrow> nat \<Rightarrow> 'a list list \<Rightarrow> bool" where
  "has_shape r c x \<longleftrightarrow> length x = r \<and> list_all (\<lambda>row. length row = c) x"

text \<open>
  What is used of \<^verbatim>\<open>scipy.ndimage.zoom(., 0.5)\<close>: on an image of 28 by 28 it returns one
  of 14 by 14.
\<close>

definition zoom_halves :: "(real list list \<Rightarrow> real list list) \<Rightarrow> bool" where
  "zoom_halves zoom \<longleftrightarrow> (\<forall>x. has_shape 28 28 x \<longrightarrow> has_shape 14 14 (zoom x))"

section \<open>Example pools\<close>

text \<open>A pool of three one-pixel images with scalar labels, as the constructor builds it.\<close>

definition pool3 :: DataSet where
  "pool3 = \<lparr>num_examples = 3, images = [[0], [1], [2]],
             labels = [Scalar 7, Scalar 8, Scalar 9],
             epochs_completed = 0, index_in_epoch = 0, one_hot = None\<rparr>"

text \<open>A pool of ten one-pixel images; image \<open>i\<close> holds the value \<open>i\<close> and has label \<open>i\<close>.\<close>

definition pool10 :: DataSet where
  "pool10 = \<lparr>num_examples = 10,
              images = [[0], [1], [2], [3], [4], [5], [6], [7], [8], [9]],
              labels = [Scalar 0, Scalar 1, Scalar 2, Scalar 3, Scalar 4,
                        Scalar 5, Scalar 6, Scalar 7, Scalar 8, Scalar 9],
              epochs_completed = 0, index_in_epoch = 0, one_hot = None\<rparr>"

text \<open>One outcome of the shuffle of ten indices: the identity.\<close>

definition perm10 :: "nat list" where
  "perm10 = [0, 1, 2, 3, 4, 5, 6, 7, 8, 9]"

text \<open>A pool of two images of 784 pixels, with the labels 3 and 5.\<close>

definition pool784 :: DataSet where
  "pool784 = \<lparr>num_examples = 2, images = [replicate 784 0, replicate 784 1],
               labels = [Scalar 3, Scalar 5],
               epochs_completed = 0, index_in_epoch = 0, one_hot = None\<rparr>"

text \<open>
  A pool of 48 images of 784 pixels, enough for the sixteen scenes of three digits of a
  default \<^verbatim>\<open>next_mix_batch\<close>; example \<open>i\<close> has the label \<open>i mod 10\<close>.
\<close>

definition pool48 :: DataSet where
  "pool48 = \<lparr>num_examples = 48, images = replicate 48 (replicate 784 1),
              labels = map (\<lambda>i. Scalar (int (i mod 10))) [0..<48],
              epochs_completed = 0, index_in_epoch = 0, one_hot = None\<rparr>"

text \<open>
  A stand-in for \<^verbatim>\<open>scipy.ndimage.zoom(., 0.5)\<close> with its output shape: every other pixel
  of every other row.
\<close>

definition subsample :: "real list list \<Rightarrow> real list list" where
  "subsample x = map every_other (every_other x)"

text \<open>
  The row that \<^verbatim>\<open>dense_to_one_hot\<close> (lines 75-81) writes for a class \<open>c\<close> below 10: zeros,
  and a one at position \<open>c\<close>.
\<close>

definition one_hot_row :: "nat \<Rightarrow> int list" where
  "one_hot_row c = map (\<lambda>j. if j = c then 1 else 0) [0..<10]"

text \<open>
  The pool of 48 images with one-hot labels, as \<^verbatim>\<open>read_data_sets(one_hot=True)\<close> loads
  them; example \<open>i\<close> has the class \<open>i mod 10\<close>.
\<close>

definition pool48h :: DataSet where
  "pool48h = \<lparr>num_examples = 48, images = replicate 48 (replicate 784 1),
               labels = map (\<lambda>i. OneHot (one_hot_row (i mod 10))) [0..<48],
               epochs_completed = 0, index_in_epoch = 0, one_hot = None\<rparr>"

section \<open>Facts about \<^verbatim>\<open>next_batch\<close>\<close>

lemma is_shuffle_set: "is_shuffle n perm \<Longrightarrow> set perm = {0..<nat n}"
  by (metis is_shuffle_def mset_eq_setD set_upt)

lemma is_shuffle_length: "is_shuffle n perm \<Longrightarrow> length perm = nat n"
  by (metis is_shuffle_def length_upt mset_eq_length minus_nat.diff_0)

lemma fancy_index_shuffle:
  assumes "is_shuffle (int (length xs)) perm"
  shows "fancy_index xs perm = Inr (map (\<lambda>i. xs ! i) perm)"
  using is_shuffle_set [OF assms] by (simp add: fancy_index_def list_all_iff)

lemma next_batch_range_wf:
  assumes "wf_pool s" "is_shuffle (num_examples s) perm"
  shows "next_batch_range perm b s =
     (if num_examples s < index_in_epoch s + b then
        (if b \<le> num_examples s then Inr (0, b) else Inl AssertionError,
         s\<lparr>index_in_epoch := b, epochs_completed := epochs_completed s + 1,
            images := map (\<lambda>i. images s ! i) perm, labels := map (\<lambda>i. labels s ! i) perm\<rparr>)
      else (Inr (index_in_epoch s, index_in_epoch s + b), s\<lparr>index_in_epoch := index_in_epoch s + b\<rparr>))"
proof -
  from assms have i: "fancy_index (images s) perm = Inr (map (\<lambda>i. images s ! i) perm)"
    by (intro fancy_index_shuffle) (simp add: wf_pool_def)
  from assms have l: "fancy_index (labels s) perm = Inr (map (\<lambda>i. labels s ! i) perm)"
    by (intro fancy_index_shuffle) (simp add: wf_pool_def)
  show ?thesis
    by (simp add: next_batch_range_def Let_def i l)
qed

lemma next_batch_range_keeps_wf:
  assumes "wf_pool s" "is_shuffle (num_examples s) perm"
  shows "wf_pool (snd (next_batch_range perm b s)) \<and> num_examples (snd (next_batch_range perm b s)) = num_examples s"
  using assms is_shuffle_length [OF assms(2)]
  by (simp add: next_batch_range_wf) (simp add: wf_pool_def)

lemma next_batch_state:
  "snd (next_batch perm bo False s) = snd (next_batch_range perm (or_default bo MNISTDataSet_bsz) s)"
  by (simp add: next_batch_def Let_def split: prod.splits sum.splits)

lemma mset_map_nth_shuffle:
  assumes "is_shuffle (int (length xs)) perm"
  shows "mset (map (\<lambda>i. xs ! i) perm) = mset xs"
proof -
  have "mset (map (\<lambda>i. xs ! i) perm) = image_mset (\<lambda>i. xs ! i) (mset perm)" by simp
  also have "\<dots> = image_mset (\<lambda>i. xs ! i) (mset [0..<length xs])"
    using assms by (simp add: is_shuffle_def)
  also have "\<dots> = mset (map (\<lambda>i. xs ! i) [0..<length xs])" by simp
  also have "\<dots> = mset xs" by (simp add: map_nth)
  finally show ?thesis .
qed

lemma zip_map_nth:
  assumes "length xs = length ys" "\<forall>i\<in>set perm. i < length xs"
  shows "zip (map (\<lambda>i. xs ! i) perm) (map (\<lambda>i. ys ! i) perm) = map (\<lambda>i. zip xs ys ! i) perm"
  using assms by (induction perm) simp_all

lemma next_batch_range_aligned:
  assumes "wf_pool s" "is_shuffle (num_examples s) perm"
  shows "mset (zip (images (snd (next_batch_range perm b s))) (labels (snd (next_batch_range perm b s))))
       = mset (zip (images s) (labels s))"
proof (cases "num_examples s < index_in_epoch s + b")
  case False
  then show ?thesis using assms by (simp add: next_batch_range_wf)
next
  case True
  have len: "length (labels s) = length (images s)" "num_examples s = int (length (images s))"
    using assms(1) by (simp_all add: wf_pool_def)
  have sh: "is_shuffle (int (length (zip (images s) (labels s)))) perm"
    using assms(2) len by simp
  have "\<forall>i\<in>set perm. i < length (images s)"
    using is_shuffle_set [OF assms(2)] len by simp
  then have "zip (map (\<lambda>i. images s ! i) perm) (map (\<lambda>i. labels s ! i) perm)
      = map (\<lambda>i. zip (images s) (labels s) ! i) perm"
    using len by (simp add: zip_map_nth)
  then show ?thesis
    using True assms mset_map_nth_shuffle [OF sh] by (simp add: next_batch_range_wf)
qed

lemma next_batch_calls_wf:
  assumes "wf_pool s" "\<forall>c\<in>set cs. is_shuffle (num_examples s) (fst c)"
  shows "wf_pool (next_batch_calls cs s) \<and> num_examples (next_batch_calls cs s) = num_examples s
       \<and> mset (zip (images (next_batch_calls cs s)) (labels (next_batch_calls cs s)))
         = mset (zip (images s) (labels s))"
  using assms
proof (induction cs arbitrary: s)
  case Nil
  then show ?case by simp
next
  case (Cons c cs)
  obtain perm b where c: "c = (perm, b)" by (cases c)
  let ?t = "snd (next_batch perm (Some b) False s)"
  have sh: "is_shuffle (num_examples s) perm" using Cons.prems(2) c by simp
  have t: "wf_pool ?t" "num_examples ?t = num_examples s"
    using next_batch_range_keeps_wf [OF Cons.prems(1) sh] by (simp_all add: next_batch_state)
  have al: "mset (zip (images ?t) (labels ?t)) = mset (zip (images s) (labels s))"
    using next_batch_range_aligned [OF Cons.prems(1) sh] by (simp add: next_batch_state)
  have "\<forall>c\<in>set cs. is_shuffle (num_examples ?t) (fst c)"
    using Cons.prems(2) t(2) by simp
  from Cons.IH [OF t(1) this] show ?case
    using c t(2) al by simp
qed

lemma pool3_constructed:
  "DataSet_init normalise \<lparr>norm_flag = False, mu = 0, std = 1\<rparr> [[[[0]]], [[[1]]], [[[2]]]]
     [Scalar 7, Scalar 8, Scalar 9] = Inr pool3"
  by (simp add: DataSet_init_def pool3_def)

lemma wf_pool3: "wf_pool pool3"
  by (simp add: wf_pool_def pool3_def)

lemma shuffle3: "is_shuffle (num_examples pool3) [2, 0, 1]"
  by (simp add: is_shuffle_def pool3_def upt_rec)

subsection \<open>C7: a batch larger than the pool\<close>

text \<open>
  C7. On a pool as the constructor builds it, \<^verbatim>\<open>next_batch\<close> raises the assertion error of
  line 187 (the spec's InvalidBatchSize) exactly when the call reaches a reshuffle with a
  batch size above the pool size \<open>N\<close>. With a cursor that is not negative every batch
  size above \<open>N\<close> reaches the reshuffle, so every such call fails; and every call whose
  batch size is at most \<open>N\<close> returns a batch. \<open>b\<close> is the batch size in force: the
  argument, or the class default when it is omitted.
\<close>

theorem next_batch_invalid_batch_size:
  assumes "wf_pool s" and "is_shuffle (num_examples s) perm"
    and "b = or_default batch_size MNISTDataSet_bsz"
  shows "(fst (next_batch perm batch_size False s) = Inl AssertionError
            \<longleftrightarrow> num_examples s < index_in_epoch s + b \<and> num_examples s < b)
       \<and> (0 \<le> index_in_epoch s \<and> num_examples s < b
            \<longrightarrow> fst (next_batch perm batch_size False s) = Inl AssertionError)
       \<and> (b \<le> num_examples s
            \<longrightarrow> (\<exists>X Y. fst (next_batch perm batch_size False s) = Inr (X, Y)))"
  using assms by (auto simp add: next_batch_def next_batch_range_wf Let_def)

theorem next_batch_invalid_batch_size_witness:
  "wf_pool pool3 \<and> is_shuffle (num_examples pool3) [2, 0, 1]
   \<and> fst (next_batch [2, 0, 1] (Some 4) False pool3) = Inl AssertionError
   \<and> (\<exists>X Y. fst (next_batch [2, 0, 1] (Some 2) False pool3) = Inr (X, Y))"
proof -
  have a: "(4::int) = or_default (Some 4) MNISTDataSet_bsz" by (simp add: or_default_def)
  have b: "(2::int) = or_default (Some 2) MNISTDataSet_bsz" by (simp add: or_default_def)
  show ?thesis
    using wf_pool3 shuffle3
      next_batch_invalid_batch_size [OF wf_pool3 shuffle3 a]
      next_batch_invalid_batch_size [OF wf_pool3 shuffle3 b]
    by (simp add: pool3_def)
qed

subsection \<open>C4: a reshuffle keeps every image with its label\<close>

text \<open>
  C4. A reshuffle of \<^verbatim>\<open>next_batch\<close> (a call that passes the end of the pool) reorders the
  images and the labels by the same permutation \<open>perm\<close>. So after any sequence of calls
  \<open>cs\<close>, whatever their batch sizes and whether or not they raise, the pool \<open>s'\<close> holds
  the same (image, label) pairs as the pool \<open>s\<close> it started from, each as often: the label
  stored at an index \<open>i\<close> is the label that came with the image stored at \<open>i\<close>.
\<close>

theorem reshuffle_keeps_alignment:
  assumes "wf_pool s" and "\<forall>c\<in>set cs. is_shuffle (num_examples s) (fst c)"
    and "s' = next_batch_calls cs s"
    and "is_shuffle (num_examples s) perm" and "s1 = snd (next_batch perm batch_size False s)"
  shows "(num_examples s < index_in_epoch s + or_default batch_size MNISTDataSet_bsz \<longrightarrow>
            images s1 = map (\<lambda>i. images s ! i) perm \<and> labels s1 = map (\<lambda>i. labels s ! i) perm)
       \<and> length (labels s') = length (images s') \<and> length (images s') = length (images s)
       \<and> mset (zip (images s') (labels s')) = mset (zip (images s) (labels s))
       \<and> (\<forall>i<length (images s'). \<exists>j<length (images s).
             images s' ! i = images s ! j \<and> labels s' ! i = labels s ! j)"
proof -
  have one: "num_examples s < index_in_epoch s + or_default batch_size MNISTDataSet_bsz \<longrightarrow>
            images s1 = map (\<lambda>i. images s ! i) perm \<and> labels s1 = map (\<lambda>i. labels s ! i) perm"
    using assms(1,4,5) by (simp add: next_batch_state next_batch_range_wf)
  note m = next_batch_calls_wf [OF assms(1,2), folded assms(3)]
  have len: "length (labels s') = length (images s')" "length (images s') = length (images s)"
    using m assms(1) by (simp_all add: wf_pool_def)
  have al: "mset (zip (images s') (labels s')) = mset (zip (images s) (labels s))"
    using m by simp
  have idx: "\<exists>j<length (images s). images s' ! i = images s ! j \<and> labels s' ! i = labels s ! j"
    if i: "i < length (images s')" for i
  proof -
    have "(images s' ! i, labels s' ! i) \<in> set (zip (images s') (labels s'))"
      using i len by (metis in_set_zip fst_conv snd_conv)
    then have "(images s' ! i, labels s' ! i) \<in> set (zip (images s) (labels s))"
      using al by (metis mset_eq_setD)
    then show ?thesis
      by (auto simp add: in_set_zip)
  qed
  show ?thesis using one len al idx by blast
qed

theorem reshuffle_keeps_alignment_witness:
  "wf_pool pool3
   \<and> images (next_batch_calls [([2, 0, 1], 2), ([1, 2, 0], 2)] pool3) = [[1], [2], [0]]
   \<and> labels (next_batch_calls [([2, 0, 1], 2), ([1, 2, 0], 2)] pool3) = [Scalar 8, Scalar 9, Scalar 7]
   \<and> images (snd (next_batch [2, 0, 1] (Some 4) False pool3)) = [[2], [0], [1]]
   \<and> labels (snd (next_batch [2, 0, 1] (Some 4) False pool3)) = [Scalar 9, Scalar 7, Scalar 8]
   \<and> mset (zip (images (next_batch_calls [([2, 0, 1], 2), ([1, 2, 0], 2)] pool3))
                (labels (next_batch_calls [([2, 0, 1], 2), ([1, 2, 0], 2)] pool3)))
     = mset (zip (images pool3) (labels pool3))"
proof -
  have p: "\<forall>c\<in>set [([2, 0, 1], 2), ([1, 2, 0], 2::int)]. is_shuffle (num_examples pool3) (fst c)"
    by (simp add: is_shuffle_def pool3_def upt_rec)
  have e: "images (next_batch_calls [([2, 0, 1], 2), ([1, 2, 0], 2)] pool3) = [[1], [2], [0]]
     \<and> labels (next_batch_calls [([2, 0, 1], 2), ([1, 2, 0], 2)] pool3) = [Scalar 8, Scalar 9, Scalar 7]"
    by (simp add: pool3_def next_batch_def next_batch_range_def fancy_index_def or_default_def Let_def)
  show ?thesis
    using wf_pool3 e reshuffle_keeps_alignment [OF wf_pool3 p refl shuffle3 refl, of "Some 4"]
    by (simp add: or_default_def) (simp add: pool3_def)
qed

subsection \<open>C6: fake batches\<close>

lemma next_batch_one_hot: "one_hot (snd (next_batch perm batch_size fake_data s)) = one_hot s"
  by (simp add: next_batch_def next_batch_range_def Let_def split: option.splits sum.splits)

text \<open>
  C6, as the code has it. A pool built in fake mode has the attribute \<^verbatim>\<open>one_hot\<close>, and no
  call of \<^verbatim>\<open>next_batch\<close> changes that attribute. On such a pool every call of \<^verbatim>\<open>next_batch\<close>
  that passes \<^verbatim>\<open>fake_data=True\<close> returns \<^verbatim>\<open>batch_size\<close> copies of the image of 784 ones and
  \<^verbatim>\<open>batch_size\<close> copies of the fixed label (the one-hot vector of class 0, or the scalar 0),
  and leaves the pool as it was, so the next such call returns the same again.
\<close>

theorem fake_next_batch_constant:
  assumes "one_hot s = Some oh" and "n = nat (or_default batch_size MNISTDataSet_bsz)"
  shows "next_batch perm batch_size True s =
           (Inr (replicate n (replicate 784 1),
                 replicate n (if oh then OneHot [1, 0, 0, 0, 0, 0, 0, 0, 0, 0] else Scalar 0)), s)
       \<and> one_hot (DataSet_init_fake imgs lbls oh) = Some oh
       \<and> one_hot (snd (next_batch perm' batch_size' fake_data' s)) = Some oh"
  using assms next_batch_one_hot [of perm' batch_size' fake_data' s]
  by (simp add: next_batch_def DataSet_init_fake_def Let_def numeral_eq_Suc)

theorem fake_next_batch_constant_witness:
  "next_batch [] (Some 3) True (fake True) =
     (Inr (replicate 3 (replicate 784 1), replicate 3 (OneHot [1, 0, 0, 0, 0, 0, 0, 0, 0, 0])),
      fake True)
   \<and> next_batch [] None True (snd (next_batch [] (Some 5) False (fake False))) =
     (Inr (replicate 16 (replicate 784 1), replicate 16 (Scalar 0)),
      snd (next_batch [] (Some 5) False (fake False)))"
proof -
  have a: "one_hot (fake True) = Some True" by (simp add: fake_def DataSet_init_fake_def)
  have b: "one_hot (snd (next_batch [] (Some 5) False (fake False))) = Some False"
    by (simp add: next_batch_one_hot) (simp add: fake_def DataSet_init_fake_def)
  have n3: "(3::nat) = nat (or_default (Some 3) MNISTDataSet_bsz)" by (simp add: or_default_def)
  have n16: "(16::nat) = nat (or_default None MNISTDataSet_bsz)"
    by (simp add: or_default_def MNISTDataSet_bsz_def)
  show ?thesis
    using fake_next_batch_constant [OF a n3] fake_next_batch_constant [OF b n16] by simp
qed

text \<open>
  C6 as stated fails for a call that leaves \<^verbatim>\<open>fake_data\<close> at its default: on the fake pool
  of \<^verbatim>\<open>read_data_sets\<close> such a call takes the ordinary path, returns two empty arrays
  instead of two filler examples, and moves the cursor.
\<close>

theorem fake_pool_plain_call_counterexample:
  "fst (next_batch [] (Some 2) False (fake False)) = Inr ([], [])
   \<and> fst (next_batch [] (Some 2) False (fake False))
       \<noteq> Inr (replicate 2 (replicate 784 1), replicate 2 (Scalar 0))
   \<and> snd (next_batch [] (Some 2) False (fake False)) \<noteq> fake False"
  by (simp add: next_batch_def next_batch_range_def fake_def DataSet_init_fake_def
      or_default_def py_slice_def Let_def)

subsection \<open>C1: the ranges of one epoch\<close>

lemma less_mult_iff_div_less:
  fixes b N m :: int
  assumes "0 < b"
  shows "N < m * b \<longleftrightarrow> N div b < m"
proof
  assume "N div b < m"
  then have "(N div b + 1) * b \<le> m * b"
    using assms by (intro mult_right_mono) simp_all
  then have "b * (N div b) + b \<le> m * b" by (simp add: algebra_simps)
  moreover have "N = b * (N div b) + N mod b" by simp
  moreover have "N mod b < b" using assms by simp
  ultimately show "N < m * b" by linarith
next
  assume a: "N < m * b"
  show "N div b < m"
  proof (rule ccontr)
    assume "\<not> N div b < m"
    then have "m * b \<le> (N div b) * b"
      using assms by (intro mult_right_mono) simp_all
    then have "m * b \<le> b * (N div b)" by (simp add: algebra_simps)
    moreover have "N = b * (N div b) + N mod b" by simp
    moreover have "0 \<le> N mod b" using assms by simp
    ultimately show False using a by linarith
  qed
qed

lemma next_batch_calls_snoc:
  "next_batch_calls (cs @ [(perm, b)]) s = snd (next_batch perm (Some b) False (next_batch_calls cs s))"
  by (induction cs arbitrary: s) auto

lemma py_slice_inside:
  assumes "0 \<le> a" "0 \<le> b" "a + b \<le> int (length xs)"
  shows "py_slice xs a (a + b) = take (nat b) (drop (nat a) xs)"
proof -
  have "slice_index (length xs) a = nat a" "slice_index (length xs) (a + b) = nat a + nat b"
    using assms by (auto simp add: slice_index_def nat_add_distrib)
  then show ?thesis by (simp add: py_slice_def)
qed

text \<open>The pool after call \<open>k\<close> (counted from 0) of a run from a fresh pool.\<close>
lemma epoch_state:
  assumes wf: "wf_pool s0" and fresh: "index_in_epoch s0 = 0"
    and b: "1 \<le> b" "b \<le> num_examples s0"
    and sh: "\<forall>j. is_shuffle (num_examples s0) (perms j)"
    and q: "q = nat (num_examples s0 div b)"
    and s: "s = next_batch_calls (map (\<lambda>j. (perms j, b)) [0..<Suc k]) s0"
  shows "wf_pool s \<and> num_examples s = num_examples s0
       \<and> index_in_epoch s = (int (k mod q) + 1) * b
       \<and> epochs_completed s = epochs_completed s0 + int (k div q)"
  using s
proof (induction k arbitrary: s)
  case 0
  have "\<not> num_examples s0 < index_in_epoch s0 + b" using fresh b by simp
  then show ?case
    using 0 wf sh fresh next_batch_range_keeps_wf [of s0 "perms 0" b]
    by (simp add: next_batch_state or_default_def next_batch_range_wf)
next
  case (Suc k)
  define t where "t = next_batch_calls (map (\<lambda>j. (perms j, b)) [0..<Suc k]) s0"
  have t: "wf_pool t" "num_examples t = num_examples s0"
    "index_in_epoch t = (int (k mod q) + 1) * b"
    "epochs_completed t = epochs_completed s0 + int (k div q)"
    using Suc.IH [OF t_def] by simp_all
  have "[0..<Suc (Suc k)] = [0..<Suc k] @ [Suc k]" by simp
  then have "s = next_batch_calls (map (\<lambda>j. (perms j, b)) [0..<Suc k] @ [(perms (Suc k), b)]) s0"
    using Suc.prems by (simp only: map_append list.map)
  then have st: "s = snd (next_batch_range (perms (Suc k)) b t)"
    by (simp only: next_batch_calls_snoc t_def next_batch_state or_default_def option.case)
  have sht: "is_shuffle (num_examples t) (perms (Suc k))" using sh t by simp
  have qpos: "0 < q" "int q = num_examples s0 div b"
    using b q pos_imp_zdiv_pos_iff [of b "num_examples s0"] by simp_all
  have mq: "k mod q < q" using qpos by simp
  have re: "num_examples t < index_in_epoch t + b \<longleftrightarrow> Suc (k mod q) = q"
  proof -
    have "index_in_epoch t + b = (int (k mod q) + 2) * b"
      using t by (simp add: algebra_simps)
    then have "num_examples t < index_in_epoch t + b \<longleftrightarrow> num_examples s0 div b < int (k mod q) + 2"
      using less_mult_iff_div_less [of b "num_examples s0" "int (k mod q) + 2"] b t by simp
    then show ?thesis using qpos mq by auto
  qed
  have keep: "wf_pool s" "num_examples s = num_examples s0"
    using next_batch_range_keeps_wf [OF t(1) sht, of b] st t(2) by simp_all
  show ?case
  proof (cases "Suc (k mod q) = q")
    case True
    then have "num_examples t < index_in_epoch t + b" using re by simp
    then have "index_in_epoch s = b" "epochs_completed s = epochs_completed t + 1"
      using st by (simp_all add: next_batch_range_wf [OF t(1) sht])
    then show ?thesis
      using keep t True by (simp add: mod_Suc div_Suc)
  next
    case False
    then have "\<not> num_examples t < index_in_epoch t + b" using re by simp
    then have "index_in_epoch s = index_in_epoch t + b" "epochs_completed s = epochs_completed t"
      using st by (simp_all add: next_batch_range_wf [OF t(1) sht])
    then show ?thesis
      using keep t False by (simp add: mod_Suc div_Suc algebra_simps)
  qed
qed

lemma wf_pool10: "wf_pool pool10"
  by (simp add: wf_pool_def pool10_def)

lemma shuffle10: "is_shuffle (num_examples pool10) perm10"
  by code_simp

text \<open>
  C1, as the code has it. Take a fresh pool of \<open>N\<close> examples, a fixed batch size \<open>b\<close> with
  \<open>1 \<le> b \<le> N\<close>, and let \<open>q = N div b\<close> be the number of whole batches in the pool.
  Call number \<open>k\<close> (counted from 0) returns the index range from \<open>(k mod q) * b\<close> to
  \<open>(k mod q) * b + b\<close> of the pool as the call leaves it. So the \<open>q\<close> calls of one epoch
  return adjacent, disjoint, increasing ranges that cover the indices below \<open>q * b\<close> once
  each; that is the whole pool exactly when \<open>b\<close> divides \<open>N\<close>. The pool is reshuffled by
  the calls \<open>q, 2q, 3q, \<dots>\<close> and by no other, and \<^verbatim>\<open>epochs_completed\<close> has grown by
  \<open>k div q\<close> after call \<open>k\<close>: by one for every \<open>q\<close> calls.
\<close>

theorem next_batch_epoch_ranges:
  assumes "wf_pool s0" and "index_in_epoch s0 = 0"
    and "1 \<le> b" and "b \<le> num_examples s0"
    and "\<forall>j. is_shuffle (num_examples s0) (perms j)"
    and "q = nat (num_examples s0 div b)"
    and "s = next_batch_calls (map (\<lambda>j. (perms j, b)) [0..<k]) s0"
    and "s' = snd (next_batch (perms k) (Some b) False s)"
    and "start = int (k mod q) * b"
  shows "next_batch_range (perms k) b s = (Inr (start, start + b), s')
       \<and> fst (next_batch (perms k) (Some b) False s)
           = Inr (take (nat b) (drop (nat start) (images s')),
                  take (nat b) (drop (nat start) (labels s')))
       \<and> start + b \<le> int q * b \<and> int q * b \<le> num_examples s0
       \<and> (int q * b = num_examples s0 \<longleftrightarrow> b dvd num_examples s0)
       \<and> epochs_completed s' = epochs_completed s0 + int (k div q)
       \<and> images s' = (if 0 < k \<and> k mod q = 0 then map (\<lambda>i. images s ! i) (perms k) else images s)
       \<and> labels s' = (if 0 < k \<and> k mod q = 0 then map (\<lambda>i. labels s ! i) (perms k) else labels s)"
proof -
  let ?N = "num_examples s0"
  have qpos: "0 < q" "int q = ?N div b"
    using assms(3,4,6) pos_imp_zdiv_pos_iff [of b ?N] by simp_all
  have qb: "int q * b \<le> ?N" "(int q * b = ?N \<longleftrightarrow> b dvd ?N)"
  proof -
    have e: "?N = b * (?N div b) + ?N mod b" by simp
    moreover have "0 \<le> ?N mod b" using assms(3) by simp
    ultimately have "b * (?N div b) \<le> ?N" by linarith
    then show "int q * b \<le> ?N" using qpos by (simp add: algebra_simps)
    have "b * (?N div b) = ?N \<longleftrightarrow> ?N mod b = 0" using e by linarith
    then show "int q * b = ?N \<longleftrightarrow> b dvd ?N"
      using qpos by (simp add: algebra_simps dvd_eq_mod_eq_0)
  qed
  have mq: "k mod q < q" using qpos by simp
  then have "int (k mod q) + 1 \<le> int q" by simp
  then have "(int (k mod q) + 1) * b \<le> int q * b"
    using assms(3) by (intro mult_right_mono) simp_all
  then have inside: "start + b \<le> int q * b" using assms(9) by (simp add: algebra_simps)
  have st0: "0 \<le> start" using assms(3,9) by simp
  \<comment> \<open>the pool before call \<open>k\<close>\<close>
  have pre: "wf_pool s \<and> num_examples s = ?N
      \<and> index_in_epoch s = (if k = 0 then 0 else (int ((k - 1) mod q) + 1) * b)
      \<and> epochs_completed s = epochs_completed s0 + (if k = 0 then 0 else int ((k - 1) div q))"
  proof (cases k)
    case 0
    then show ?thesis using assms(1,2,7) by simp
  next
    case (Suc k')
    then show ?thesis
      using epoch_state [OF assms(1,2,3,4,5,6), of s k'] assms(7) by simp
  qed
  have shk: "is_shuffle (num_examples s) (perms k)" using assms(5) pre by simp
  have wfs: "wf_pool s" using pre by simp
  have re: "num_examples s < index_in_epoch s + b \<longleftrightarrow> 0 < k \<and> k mod q = 0"
  proof (cases k)
    case 0
    then show ?thesis using pre assms(3,4) by simp
  next
    case (Suc k')
    have "k' mod q < q" using qpos by simp
    have "index_in_epoch s + b = (int (k' mod q) + 2) * b"
      using pre Suc by (simp add: algebra_simps)
    then have "num_examples s < index_in_epoch s + b \<longleftrightarrow> ?N div b < int (k' mod q) + 2"
      using less_mult_iff_div_less [of b ?N "int (k' mod q) + 2"] assms(3) pre by simp
    also have "\<dots> \<longleftrightarrow> Suc (k' mod q) = q" using qpos \<open>k' mod q < q\<close> by auto
    also have "\<dots> \<longleftrightarrow> 0 < k \<and> k mod q = 0" using Suc by (simp add: mod_Suc)
    finally show ?thesis .
  qed
  have idx: "\<not> (0 < k \<and> k mod q = 0) \<Longrightarrow> index_in_epoch s = start"
  proof (cases k)
    case 0
    then show ?thesis using pre assms(9) by simp
  next
    case (Suc k')
    assume "\<not> (0 < k \<and> k mod q = 0)"
    then have "Suc (k' mod q) \<noteq> q" using Suc by (simp add: mod_Suc split: if_splits)
    then show ?thesis using pre Suc assms(9) by (simp add: mod_Suc)
  qed
  have ep: "epochs_completed s + (if 0 < k \<and> k mod q = 0 then 1 else 0)
      = epochs_completed s0 + int (k div q)"
  proof (cases k)
    case 0
    then show ?thesis using pre by simp
  next
    case (Suc k')
    then show ?thesis using pre by (simp add: div_Suc)
  qed
  have s': "s' = snd (next_batch_range (perms k) b s)"
    using assms(8) by (simp add: next_batch_state or_default_def)
  have rng: "next_batch_range (perms k) b s = (Inr (start, start + b), s')"
  proof (cases "0 < k \<and> k mod q = 0")
    case True
    then have "start = 0" using assms(9) by simp
    moreover have "b \<le> num_examples s" using pre assms(4) by simp
    ultimately show ?thesis
      using True re s' by (simp add: next_batch_range_wf [OF wfs shk])
  next
    case False
    then have "\<not> num_examples s < index_in_epoch s + b" using re by simp
    then have "next_batch_range (perms k) b s
        = (Inr (index_in_epoch s, index_in_epoch s + b), snd (next_batch_range (perms k) b s))"
      by (simp add: next_batch_range_wf [OF wfs shk])
    then show ?thesis
      using idx [OF False] s' by simp
  qed
  have wf': "wf_pool s'" "num_examples s' = ?N"
    using next_batch_range_keeps_wf [OF wfs shk, of b] s' pre by simp_all
  have len: "start + b \<le> int (length (images s'))" "start + b \<le> int (length (labels s'))"
    using wf' inside qb(1) by (simp_all add: wf_pool_def)
  have b0: "0 \<le> b" using assms(3) by simp
  have res: "fst (next_batch (perms k) (Some b) False s)
           = Inr (take (nat b) (drop (nat start) (images s')),
                  take (nat b) (drop (nat start) (labels s')))"
    using rng py_slice_inside [OF st0 b0 len(1)] py_slice_inside [OF st0 b0 len(2)]
    by (simp add: next_batch_def or_default_def)
  have eps: "epochs_completed s' = epochs_completed s0 + int (k div q)"
    using ep re s' by (simp add: next_batch_range_wf [OF wfs shk] split: if_splits)
  have im: "images s' = (if 0 < k \<and> k mod q = 0 then map (\<lambda>i. images s ! i) (perms k) else images s)"
    "labels s' = (if 0 < k \<and> k mod q = 0 then map (\<lambda>i. labels s ! i) (perms k) else labels s)"
    using re s' by (simp_all add: next_batch_range_wf [OF wfs shk])
  show ?thesis using rng res inside qb eps im by blast
qed

theorem next_batch_epoch_ranges_witness:
  "wf_pool pool10 \<and> index_in_epoch pool10 = 0 \<and> (1::int) \<le> 4 \<and> 4 \<le> num_examples pool10
   \<and> is_shuffle (num_examples pool10) perm10
   \<and> nat (num_examples pool10 div 4) = 2
   \<and> fst (next_batch perm10 (Some 4) False (next_batch_calls [(perm10, 4)] pool10))
       = Inr ([[4], [5], [6], [7]], [Scalar 4, Scalar 5, Scalar 6, Scalar 7])
   \<and> epochs_completed (snd (next_batch perm10 (Some 4) False (next_batch_calls [(perm10, 4)] pool10))) = 0
   \<and> \<not> (4::int) dvd num_examples pool10"
proof -
  have n: "num_examples pool10 = 10" "index_in_epoch pool10 = 0" "epochs_completed pool10 = 0"
    by (simp_all add: pool10_def)
  have sh: "\<forall>j::nat. is_shuffle (num_examples pool10) ((\<lambda>_. perm10) j)"
    using shuffle10 by simp
  have b: "(1::int) \<le> 4" "(4::int) \<le> num_examples pool10" using n by simp_all
  have q: "(2::nat) = nat (num_examples pool10 div 4)" using n by simp
  have s: "next_batch_calls [(perm10, 4)] pool10
      = next_batch_calls (map (\<lambda>j. ((\<lambda>_. perm10) j, 4)) [0..<1]) pool10"
    by simp
  have st: "(4::int) = int (1 mod 2) * 4" by simp
  have im: "images (snd (next_batch perm10 (Some 4) False (next_batch_calls [(perm10, 4)] pool10)))
      = images pool10"
    and lb: "labels (snd (next_batch perm10 (Some 4) False (next_batch_calls [(perm10, 4)] pool10)))
      = labels pool10"
    by (simp_all add: next_batch_def next_batch_range_def or_default_def Let_def n)
  note t = next_batch_epoch_ranges [OF wf_pool10 n(2) b sh q s refl st]
  have "fst (next_batch perm10 (Some 4) False (next_batch_calls [(perm10, 4)] pool10))
       = Inr (take (nat 4) (drop (nat 4) (images pool10)), take (nat 4) (drop (nat 4) (labels pool10)))"
    using t unfolding im lb by (rule conjunct1 [OF conjunct2])
  then have r: "fst (next_batch perm10 (Some 4) False (next_batch_calls [(perm10, 4)] pool10))
       = Inr ([[4], [5], [6], [7]], [Scalar 4, Scalar 5, Scalar 6, Scalar 7])"
    by (simp add: pool10_def)
  have e: "epochs_completed (snd (next_batch perm10 (Some 4) False (next_batch_calls [(perm10, 4)] pool10))) = 0"
    using t n by simp
  show ?thesis
    using wf_pool10 shuffle10 n r e by simp
qed

text \<open>
  C1 as stated fails when the batch size does not divide the pool size. With ten examples
  and batches of four, the first two calls return the examples 0 to 3 and 4 to 7; the third
  call ends the epoch and, the shuffle drawing the identity, returns the examples 0 to 3
  again. The examples 8 and 9 were never returned.
\<close>

theorem next_batch_skips_tail_counterexample:
  "fst (next_batch perm10 (Some 4) False pool10)
     = Inr ([[0], [1], [2], [3]], [Scalar 0, Scalar 1, Scalar 2, Scalar 3])
   \<and> fst (next_batch perm10 (Some 4) False (next_batch_calls [(perm10, 4)] pool10))
     = Inr ([[4], [5], [6], [7]], [Scalar 4, Scalar 5, Scalar 6, Scalar 7])
   \<and> epochs_completed (next_batch_calls [(perm10, 4), (perm10, 4)] pool10) = 0
   \<and> fst (next_batch perm10 (Some 4) False (next_batch_calls [(perm10, 4), (perm10, 4)] pool10))
     = Inr ([[0], [1], [2], [3]], [Scalar 0, Scalar 1, Scalar 2, Scalar 3])
   \<and> epochs_completed (next_batch_calls [(perm10, 4), (perm10, 4), (perm10, 4)] pool10) = 1"
  by (simp add: next_batch_def next_batch_range_def fancy_index_def py_slice_def slice_index_def
      or_default_def Let_def pool10_def perm10_def)

subsection \<open>The doubles of the probability vector\<close>

lemma double_constants:
  "fmul (fdiv 5 9) 1 = 5003999585967218 / 2 ^ 53"
  "fdiv (fmul (fdiv 5 9) 1) 10 = 8006399337547549 / 2 ^ 57"
  "fdiv 5 10 = 1 / 2"
  by code_simp+

text \<open>The two vectors with their doubles computed.\<close>

lemma action_weights_doubles:
  "action_weights yi =
     (case yi of
        OneHot _ \<Rightarrow> Inl IndexError
      | Scalar v \<Rightarrow>
          if v < - 10 \<or> 10 \<le> v then Inl IndexError
          else Inr ((replicate 10 (5003999585967218 / 2 ^ 53))
                      [nat (if v < 0 then v + 10 else v) := 5]))"
  by (cases yi)
    (simp_all add: action_weights_def MNISTDataSet_num_actions_def Let_def double_constants(1))

lemma action_probs_doubles [code]:
  "action_probs yi =
     (case yi of
        OneHot _ \<Rightarrow> Inl IndexError
      | Scalar v \<Rightarrow>
          if v < - 10 \<or> 10 \<le> v then Inl IndexError
          else Inr ((replicate 10 (8006399337547549 / 2 ^ 57))
                      [nat (if v < 0 then v + 10 else v) := 1 / 2]))"
  by (cases yi)
    (simp_all add: action_probs_def action_weights_def MNISTDataSet_num_actions_def Let_def
      map_update double_constants(2,3))

subsection \<open>C2: the reward of \<^verbatim>\<open>random_policy\<close>\<close>

lemma next_batch_range_stop:
  "next_batch_range perm b s = (Inr (start, stop), s') \<Longrightarrow> stop = start + b"
  by (auto simp add: next_batch_range_def Let_def split: sum.splits if_splits)

lemma length_py_slice_le:
  "0 \<le> b \<Longrightarrow> length (py_slice xs a (a + b)) \<le> nat b"
  by (auto simp add: py_slice_def slice_index_def Let_def)

lemma next_batch_length_le:
  assumes "next_batch perm (Some b) False s = (Inr (X, y), s')" "0 \<le> b"
  shows "length X \<le> nat b \<and> length y \<le> nat b"
  using assms
  by (auto simp add: next_batch_def or_default_def length_py_slice_le
      split: prod.splits sum.splits dest!: next_batch_range_stop)

lemma action_probs_Scalar:
  "action_probs yi = Inr p \<Longrightarrow> is_Scalar yi"
  by (cases yi) (simp_all add: action_probs_def action_weights_def is_Scalar_def)

lemma policy_action_Inr:
  assumes "policy_action y choice i acc = Inr acc'"
  shows "i < length y \<and> is_Scalar (y ! i) \<and> acc' = acc[i := choice i]"
  using assms
  by (auto simp add: policy_action_def getitem_def random_choice_def
      split: sum.splits if_splits dest: action_probs_Scalar)

lemma policy_loop:
  assumes "fold_err (policy_action y choice) js acc = Inr action" and "distinct js"
  shows "length action = length acc
       \<and> (\<forall>i\<in>set js. i < length y \<and> is_Scalar (y ! i) \<and> (i < length acc \<longrightarrow> action ! i = choice i))
       \<and> (\<forall>i. i \<notin> set js \<longrightarrow> action ! i = acc ! i)"
  using assms
proof (induction js arbitrary: acc)
  case Nil
  then show ?case by simp
next
  case (Cons j js)
  from Cons.prems(1) obtain acc' where
    a: "policy_action y choice j acc = Inr acc'" and
    f: "fold_err (policy_action y choice) js acc' = Inr action"
    by (auto split: sum.splits)
  note p = policy_action_Inr [OF a]
  have d: "distinct js" "j \<notin> set js" using Cons.prems(2) by simp_all
  note ih = Cons.IH [OF f d(1)]
  have "action ! j = acc' ! j" using ih d(2) by simp
  then have j: "j < length acc \<longrightarrow> action ! j = choice j" using p by simp
  have rest: "\<forall>i. i \<notin> set (j # js) \<longrightarrow> action ! i = acc ! i"
    using ih p by auto
  show ?case using ih p j rest by auto
qed

lemma policy_reward_range:
  "0 \<le> policy_reward a yi \<and> policy_reward a yi \<le> 2 \<and> policy_reward a yi \<le> 5
   \<and> (a = yi \<longrightarrow> policy_reward a yi = 2)"
  by (simp add: policy_reward_def clip_def)

text \<open>
  C2, as the code has it. Whenever \<^verbatim>\<open>random_policy\<close> returns, the batch \<open>(X, y)\<close> it drew
  has \<^verbatim>\<open>bsz\<close> scalar labels, and the reward of each example \<open>i\<close> is
  \<^verbatim>\<open>clip(2 - |action - true_label|, 0, 5)\<close> for the sampled action \<open>choice i\<close>. The reward
  lies between 0 and 5, indeed between 0 and 2, and it is 2 when the sampled action
  equals the true label.
\<close>
theorem random_policy_reward:
  assumes "random_policy onehot perm choice bsz s = (Inr (X', A, reward), s')"
    and "b = or_default bsz MNISTDataSet_bsz"
    and "next_batch perm (Some b) False s = (Inr (X, y), s'')"
  shows "length y = nat b \<and> length reward = nat b
       \<and> (\<forall>i<nat b. \<exists>v. y ! i = Scalar v
             \<and> reward ! i = clip (2 - \<bar>choice i - v\<bar>) 0 5
             \<and> 0 \<le> reward ! i \<and> reward ! i \<le> 5 \<and> reward ! i \<le> 2
             \<and> (choice i = v \<longrightarrow> reward ! i = 2))"
proof -
  from assms obtain X3 action where
    r: "reshape_batch X b = Inr X3" and
    l: "fold_err (policy_action y choice) [0..<nat b] (replicate (nat b) 0) = Inr action" and
    w: "policy_rewards action y (labels s'') = Inr reward"
    by (auto simp add: random_policy_def Let_def split: sum.splits)
  have b0: "0 \<le> b" using r by (simp add: reshape_batch_def split: if_splits)
  have le: "length y \<le> nat b" using next_batch_length_le [OF assms(3) b0] by simp
  note p = policy_loop [OF l distinct_upt]
  have la: "length action = nat b" using p by simp
  have ge: "nat b \<le> length y"
  proof (cases "nat b")
    case 0
    then show ?thesis by simp
  next
    case (Suc n)
    then have "n \<in> set [0..<nat b]" by simp
    then have "n < length y" using p by blast
    then show ?thesis using Suc by simp
  qed
  have ly: "length y = nat b" using le ge by simp
  have sc: "list_all is_Scalar y" and
    rw: "reward = map (\<lambda>(a, yi). policy_reward a yi) (zip action (map scalar_of y))"
    using w la ly by (auto simp add: policy_rewards_def broadcast_def split: if_splits)
  have lr: "length reward = nat b" using rw la ly by simp
  have each: "\<exists>v. y ! i = Scalar v
             \<and> reward ! i = clip (2 - \<bar>choice i - v\<bar>) 0 5
             \<and> 0 \<le> reward ! i \<and> reward ! i \<le> 5 \<and> reward ! i \<le> 2
             \<and> (choice i = v \<longrightarrow> reward ! i = 2)" if i: "i < nat b" for i
  proof -
    have "is_Scalar (y ! i)" using sc i ly by (simp add: list_all_length)
    then obtain v where v: "y ! i = Scalar v"
      by (cases "y ! i") (simp_all add: is_Scalar_def)
    have "i \<in> set [0..<nat b]" using i by simp
    then have a: "action ! i = choice i" using p i by auto
    have "reward ! i = policy_reward (action ! i) (scalar_of (y ! i))"
      using rw i la ly by simp
    then have "reward ! i = policy_reward (choice i) v"
      using a v by (simp add: scalar_of_def)
    then show ?thesis
      using v policy_reward_range [of "choice i" v] by (simp add: policy_reward_def)
  qed
  show ?thesis using ly lr each by blast
qed

lemma random_policy_pool784:
  "random_policy (\<lambda>a. a) [0, 1] (\<lambda>i. 3) (Some 2) pool784
     = (Inr ([replicate 14 (replicate 14 0), replicate 14 (replicate 14 1)], [3, 3], [2, 0]),
        pool784\<lparr>index_in_epoch := 2\<rparr>)"
  by code_simp

lemma next_batch_pool784:
  "next_batch [0, 1] (Some 2) False pool784
     = (Inr ([replicate 784 0, replicate 784 1], [Scalar 3, Scalar 5]), pool784\<lparr>index_in_epoch := 2\<rparr>)"
  by (simp add: next_batch_def next_batch_range_def or_default_def py_slice_def slice_index_def pool784_def Let_def)

theorem random_policy_reward_witness:
  "random_policy (\<lambda>a. a) [0, 1] (\<lambda>i. 3) (Some 2) pool784
     = (Inr ([replicate 14 (replicate 14 0), replicate 14 (replicate 14 1)], [3, 3], [2, 0]),
        pool784\<lparr>index_in_epoch := 2\<rparr>)
   \<and> next_batch [0, 1] (Some 2) False pool784
     = (Inr ([replicate 784 0, replicate 784 1], [Scalar 3, Scalar 5]),
        pool784\<lparr>index_in_epoch := 2\<rparr>)
   \<and> [2, 0 :: int] ! 0 = clip (2 - \<bar>3 - 3\<bar>) 0 5
   \<and> [2, 0 :: int] ! 1 = clip (2 - \<bar>3 - 5\<bar>) 0 5"
proof -
  have b: "(2::int) = or_default (Some 2) MNISTDataSet_bsz" by (simp add: or_default_def)
  note t = random_policy_reward [OF random_policy_pool784 b next_batch_pool784]
  have a: "\<exists>v. [Scalar 3, Scalar 5] ! i = Scalar v \<and> [2, 0] ! i = clip (2 - \<bar>3 - v\<bar>) 0 5"
    if "i < nat 2" for i
    using t that by blast
  have "[2, 0 :: int] ! 0 = clip (2 - \<bar>3 - 3\<bar>) 0 5" using a [of 0] by auto
  moreover have "[2, 0 :: int] ! 1 = clip (2 - \<bar>3 - 5\<bar>) 0 5" using a [of 1] by auto
  ultimately show ?thesis using random_policy_pool784 next_batch_pool784 by simp
qed

text \<open>
  C2 as stated fails in its last part: on an example with label 3 for which the action 3
  is sampled, the reward is \<^verbatim>\<open>clip(2 - 0, 0, 5)\<close>, which is 2 and not 5.
\<close>
theorem random_policy_reward_counterexample:
  "fst (random_policy (\<lambda>a. a) [0, 1] (\<lambda>i. 3) (Some 1) pool784)
     = Inr ([replicate 14 (replicate 14 0)], [3], [2])
   \<and> fst (next_batch [0, 1] (Some 1) False pool784) = Inr ([replicate 784 0], [Scalar 3])
   \<and> policy_reward 3 3 = 2 \<and> policy_reward 3 3 \<noteq> 5"
  by code_simp

subsection \<open>C8: the probability vector\<close>

lemma weight_sums:
  "list_all (\<lambda>k. sum_list ((replicate 10 (5003999585967218 / 2 ^ 53 :: real))[k := 5])
       = 10 + 1 / 2 ^ 52) [0..<10]"
  "list_all (\<lambda>k. sum_list ((replicate 10 (8006399337547549 / 2 ^ 57 :: real))[k := 1 / 2])
       = 1 + 5 / 2 ^ 57) [0..<10]"
  by code_simp+

text \<open>
  C8. Whenever the probability vector \<open>p\<close> of an example is built, it is the weight vector
  \<open>w\<close> (ten entries: \<open>H = 5\<close> at the true label, the double nearest to \<open>H / 9\<close> elsewhere)
  divided entry by entry, in float64, by the action count 10. It is not divided by its own
  sum, which is \<open>10 + 2 ^ -52\<close>, and the entries of \<open>p\<close> do not sum to 1: their sum is
  \<open>1 + 5 / 2 ^ 57\<close>, for every label. (That is within the tolerance of the sampler.)
\<close>

theorem action_probs_sum:
  assumes "action_probs yi = Inr p"
  shows "\<exists>w. action_weights yi = Inr w \<and> length w = 10
       \<and> p = map (\<lambda>x. fdiv x (real_of_int MNISTDataSet_num_actions)) w
       \<and> sum_list w = 10 + 1 / 2 ^ 52
       \<and> sum_list w \<noteq> real_of_int MNISTDataSet_num_actions
       \<and> sum_list p = 1 + 5 / 2 ^ 57
       \<and> sum_list p \<noteq> 1
       \<and> \<bar>sum_list p - 1\<bar> \<le> 1 / 2 ^ 26"
proof -
  from assms obtain w where w: "action_weights yi = Inr w"
    and p: "p = map (\<lambda>x. fdiv x (real_of_int MNISTDataSet_num_actions)) w"
    by (auto simp add: action_probs_def split: sum.splits)
  from w obtain v where v: "yi = Scalar v" "- 10 \<le> v" "v < 10"
    by (cases yi) (auto simp add: action_weights_doubles split: if_splits)
  define k where "k = nat (if v < 0 then v + 10 else v)"
  have k: "k < 10" using v by (auto simp add: k_def)
  have wk: "w = (replicate 10 (5003999585967218 / 2 ^ 53))[k := 5]"
    using w v by (cases "v < 0") (auto simp add: action_weights_doubles k_def)
  have pk: "p = (replicate 10 (8006399337547549 / 2 ^ 57))[k := 1 / 2]"
    using assms v by (cases "v < 0") (auto simp add: action_probs_doubles k_def)
  have sw: "sum_list w = 10 + 1 / 2 ^ 52"
    using weight_sums(1) k wk by (simp add: list_all_iff)
  have sp: "sum_list p = 1 + 5 / 2 ^ 57"
    using weight_sums(2) k pk by (simp add: list_all_iff)
  have "length w = 10" using wk by simp
  moreover have "sum_list w \<noteq> real_of_int MNISTDataSet_num_actions"
    using sw by (simp add: MNISTDataSet_num_actions_def)
  moreover have "sum_list p \<noteq> 1" using sp by simp
  moreover have "\<bar>sum_list p - 1\<bar> \<le> 1 / 2 ^ 26" using sp by simp
  ultimately show ?thesis using w p sw sp by blast
qed

theorem action_probs_sum_witness:
  "action_probs (Scalar 3)
     = Inr [8006399337547549 / 2 ^ 57, 8006399337547549 / 2 ^ 57, 8006399337547549 / 2 ^ 57,
            1 / 2, 8006399337547549 / 2 ^ 57, 8006399337547549 / 2 ^ 57,
            8006399337547549 / 2 ^ 57, 8006399337547549 / 2 ^ 57, 8006399337547549 / 2 ^ 57,
            8006399337547549 / 2 ^ 57]
   \<and> sum_list [8006399337547549 / 2 ^ 57, 8006399337547549 / 2 ^ 57, 8006399337547549 / 2 ^ 57,
            1 / 2, 8006399337547549 / 2 ^ 57, 8006399337547549 / 2 ^ 57,
            8006399337547549 / 2 ^ 57, 8006399337547549 / 2 ^ 57, 8006399337547549 / 2 ^ 57,
            8006399337547549 / 2 ^ 57 :: real] = 1 + 5 / 2 ^ 57
   \<and> foldl fadd 0 [8006399337547549 / 2 ^ 57, 8006399337547549 / 2 ^ 57,
            8006399337547549 / 2 ^ 57, 1 / 2, 8006399337547549 / 2 ^ 57,
            8006399337547549 / 2 ^ 57, 8006399337547549 / 2 ^ 57, 8006399337547549 / 2 ^ 57,
            8006399337547549 / 2 ^ 57, 8006399337547549 / 2 ^ 57] = 1 + 1 / 2 ^ 52"
proof -
  have a: "action_probs (Scalar 3)
     = Inr [8006399337547549 / 2 ^ 57, 8006399337547549 / 2 ^ 57, 8006399337547549 / 2 ^ 57,
            1 / 2, 8006399337547549 / 2 ^ 57, 8006399337547549 / 2 ^ 57,
            8006399337547549 / 2 ^ 57, 8006399337547549 / 2 ^ 57, 8006399337547549 / 2 ^ 57,
            8006399337547549 / 2 ^ 57]"
    by code_simp
  have f: "foldl fadd 0 [8006399337547549 / 2 ^ 57, 8006399337547549 / 2 ^ 57,
            8006399337547549 / 2 ^ 57, 1 / 2, 8006399337547549 / 2 ^ 57,
            8006399337547549 / 2 ^ 57, 8006399337547549 / 2 ^ 57, 8006399337547549 / 2 ^ 57,
            8006399337547549 / 2 ^ 57, 8006399337547549 / 2 ^ 57] = 1 + 1 / 2 ^ 52"
    by code_simp
  from action_probs_sum [OF a] have "sum_list [8006399337547549 / 2 ^ 57, 8006399337547549 / 2 ^ 57,
            8006399337547549 / 2 ^ 57, 1 / 2, 8006399337547549 / 2 ^ 57,
            8006399337547549 / 2 ^ 57, 8006399337547549 / 2 ^ 57, 8006399337547549 / 2 ^ 57,
            8006399337547549 / 2 ^ 57, 8006399337547549 / 2 ^ 57 :: real] = 1 + 5 / 2 ^ 57"
    by blast
  then show ?thesis using a f by blast
qed

section \<open>Facts about \<^verbatim>\<open>next_mix_batch\<close>\<close>

lemma fold_err_append:
  "fold_err f (xs @ ys) s = (case fold_err f xs s of Inl e \<Rightarrow> Inl e | Inr t \<Rightarrow> fold_err f ys t)"
  by (induction xs arbitrary: s) (auto split: sum.splits)

lemma fold_err_upt:
  assumes "fold_err f [0..<n] s = Inr s'" and "I 0 s"
    and "\<And>k a b. I k a \<Longrightarrow> f k a = Inr b \<Longrightarrow> I (Suc k) b"
  shows "I n s' \<and> (\<forall>k<n. \<exists>a b. I k a \<and> f k a = Inr b)"
  using assms(1)
proof (induction n arbitrary: s')
  case 0
  then show ?case using assms(2) by simp
next
  case (Suc n)
  from Suc.prems obtain t where t: "fold_err f [0..<n] s = Inr t" and l: "f n t = Inr s'"
    by (auto simp add: fold_err_append split: sum.splits)
  note ih = Suc.IH [OF t]
  have "I (Suc n) s'" using assms(3) ih l by blast
  moreover have "\<exists>a b. I k a \<and> f k a = Inr b" if "k < Suc n" for k
  proof (cases "k = n")
    case True
    then show ?thesis using ih l by blast
  next
    case False
    then show ?thesis using ih that by simp
  qed
  ultimately show ?case by blast
qed

lemma chunk_shape:
  "k * n \<le> length xs \<Longrightarrow> has_shape n k (chunk k n xs)"
proof (induction n arbitrary: xs)
  case 0
  then show ?case by (simp add: has_shape_def)
next
  case (Suc n)
  have "k * n \<le> length (drop k xs)" using Suc.prems by simp
  from Suc.IH [OF this] show ?case using Suc.prems by (simp add: has_shape_def)
qed

lemma reshape_28_28_shape:
  "reshape_28_28 x = Inr x28 \<Longrightarrow> has_shape 28 28 x28"
  using chunk_shape [of 28 28 x] by (auto simp add: reshape_28_28_def split: if_splits)

lemma slice_index_le: "slice_index n i \<le> n"
  by (auto simp add: slice_index_def)

lemma paste_needs_room:
  assumes "paste im W h v d = Inr im'" and "has_shape 14 14 d"
  shows "14 \<le> W \<and> 14 \<le> length im"
proof -
  define nr where "nr = slice_index (length im) (h + width2) - slice_index (length im) h"
  define nc where "nc = slice_index W (v + width2) - slice_index W v"
  have d: "length d = 14" "\<forall>row\<in>set d. length row = 14" "d \<noteq> []"
    using assms(2) by (auto simp add: has_shape_def list_all_iff)
  from assms(1) obtain rows where f: "fit nr d = Inr rows"
    and a: "list_all (\<lambda>row. length row = nc \<or> length row = 1) rows"
    by (auto simp add: paste_def Let_def nr_def nc_def split: sum.splits if_splits)
  from f d have nr: "nr = 14" "rows = d" by (auto simp add: fit_def split: if_splits)
  obtain row where "row \<in> set d" using d(3) by (cases d) auto
  then have "nc = 14" using a d(2) nr by (auto simp add: list_all_iff)
  moreover have "nc \<le> W" using slice_index_le [of W "v + width2"] by (simp add: nc_def)
  moreover have "nr \<le> length im" using slice_index_le [of "length im" "h + width2"] by (simp add: nr_def)
  ultimately show ?thesis using nr by simp
qed

lemma paste_inside:
  assumes "has_shape H W im" and "has_shape 14 14 d"
    and "0 \<le> h" "h + 14 \<le> int H" "0 \<le> v" "v + 14 \<le> int W"
  shows "\<exists>im'. paste im W h v d = Inr im' \<and> has_shape H W im'"
proof -
  have im: "length im = H" "\<forall>row\<in>set im. length row = W"
    using assms(1) by (auto simp add: has_shape_def list_all_iff)
  have d: "length d = 14" "\<forall>row\<in>set d. length row = 14"
    using assms(2) by (auto simp add: has_shape_def list_all_iff)
  have r: "slice_index (length im) h = nat h" "slice_index (length im) (h + width2) = nat h + 14"
    using assms(3,4) im by (auto simp add: slice_index_def width2_def)
  have c: "slice_index W v = nat v" "slice_index W (v + width2) = nat v + 14"
    using assms(5,6) by (auto simp add: slice_index_def width2_def)
  have f: "fit 14 d = Inr d" using d by (simp add: fit_def)
  have a: "list_all (\<lambda>row. length row = 14 \<or> length row = 1) d"
    using d by (simp add: list_all_iff)
  define im' where "im' = take (nat h) im
      @ map (\<lambda>(old, new). take (nat v) old
               @ (if length new = 14 then new else replicate 14 (hd new))
               @ drop (nat v + 14) old)
          (zip (take 14 (drop (nat h) im)) d)
      @ drop (nat h + 14) im"
  have p: "paste im W h v d = Inr im'"
    using a by (simp add: paste_def Let_def r c f im'_def case_prod_unfold)
  have "length im' = H" using im d assms(3,4) by (simp add: im'_def)
  moreover have "length row = W" if "row \<in> set im'" for row
  proof -
    from that consider "row \<in> set (take (nat h) im)" | "row \<in> set (drop (nat h + 14) im)"
      | old new where "(old, new) \<in> set (zip (take 14 (drop (nat h) im)) d)"
          "row = take (nat v) old @ (if length new = 14 then new else replicate 14 (hd new))
                  @ drop (nat v + 14) old"
      by (auto simp add: im'_def)
    then show ?thesis
    proof cases
      case 1
      then show ?thesis using im(2) by (meson in_set_takeD)
    next
      case 2
      then show ?thesis using im(2) by (meson in_set_dropD)
    next
      case 3
      have "old \<in> set im" using 3(1) by (meson in_set_zipE in_set_takeD in_set_dropD)
      then have "length old = W" using im(2) by simp
      moreover have "length new = 14" using 3(1) d(2) by (meson in_set_zipE)
      ultimately show ?thesis using 3(2) assms(5,6) by simp
    qed
  qed
  ultimately have "has_shape H W im'" by (simp add: has_shape_def list_all_iff)
  then show ?thesis using p by blast
qed

lemma place_digit_Inr:
  assumes "place_digit zoom X Y vs hs W K b n (im, lbl) = Inr (im', lbl')"
  shows "n < length hs \<and> n < length vs
       \<and> (\<exists>x28. has_shape 28 28 x28
             \<and> paste im (nat W) (hs ! n) (min (vs ! n + width2 * int n) (W - width2)) (zoom x28) = Inr im')
       \<and> (\<exists>yi. lbl' = lbl @ [yi])"
  using assms
  by (auto simp add: place_digit_def getitem_def Let_def split: sum.splits if_splits
      dest: reshape_28_28_shape)

lemma place_loop:
  assumes "fold_err (place_digit zoom X Y vs hs W K b) [0..<m] (im0, []) = Inr (im, lbl)"
  shows "length lbl = m
       \<and> (\<forall>n<m. \<exists>im1 lbl1 im2 lbl2. place_digit zoom X Y vs hs W K b n (im1, lbl1) = Inr (im2, lbl2))"
proof -
  have "(\<lambda>k acc. length (snd acc) = k) m (im, lbl)
      \<and> (\<forall>n<m. \<exists>a c. (\<lambda>k acc. length (snd acc) = k) n a
            \<and> place_digit zoom X Y vs hs W K b n a = Inr c)"
  proof (rule fold_err_upt [OF assms])
    show "length (snd (im0, [] :: label list)) = 0" by simp
  next
    fix k and a c :: "real list list \<times> label list"
    assume "length (snd a) = k" and "place_digit zoom X Y vs hs W K b k a = Inr c"
    then show "length (snd c) = Suc k"
      using place_digit_Inr [of zoom X Y vs hs W K b k "fst a" "snd a" "fst c" "snd c"] by auto
  qed
  then show ?thesis by (metis prod.collapse snd_conv)
qed

lemma mix_scene_Inr:
  assumes "mix_scene zoom X Y vert hor W H K b (IM, LBL) = Inr (IM', LBL')"
  shows "0 \<le> W \<and> 0 \<le> H \<and> width2 < H
       \<and> (\<exists>im lbl. IM' = IM @ [im] \<and> LBL' = LBL @ [lbl]
            \<and> fold_err (place_digit zoom X Y (map (vert b) [0..<3]) (map (hor b) [0..<3]) W K b)
                 [0..<nat K] (replicate (nat H) (replicate (nat W) 0), []) = Inr (im, lbl))"
  using assms
  by (auto simp add: mix_scene_def np_zeros_def randint_def split: sum.splits if_splits prod.splits)

lemma scene_loop:
  assumes "fold_err (mix_scene zoom X Y vert hor W H K) [0..<m] ([], []) = Inr (IM, LBL)"
  shows "length IM = m \<and> length LBL = m \<and> (\<forall>l\<in>set LBL. length l = nat K)
       \<and> (\<forall>b<m. \<exists>IM1 LBL1 IM2 LBL2. mix_scene zoom X Y vert hor W H K b (IM1, LBL1) = Inr (IM2, LBL2))"
proof -
  let ?I = "\<lambda>k (acc :: real list list list \<times> label list list).
      length (fst acc) = k \<and> length (snd acc) = k \<and> (\<forall>l\<in>set (snd acc). length l = nat K)"
  have "?I m (IM, LBL)
      \<and> (\<forall>b<m. \<exists>a c. ?I b a \<and> mix_scene zoom X Y vert hor W H K b a = Inr c)"
  proof (rule fold_err_upt [OF assms])
    show "?I 0 ([], [])" by simp
  next
    fix k and a c :: "real list list list \<times> label list list"
    assume a: "?I k a" and m: "mix_scene zoom X Y vert hor W H K k a = Inr c"
    from mix_scene_Inr [of zoom X Y vert hor W H K k "fst a" "snd a" "fst c" "snd c"] m
    obtain im lbl where c: "fst c = fst a @ [im]" "snd c = snd a @ [lbl]"
      and f: "fold_err (place_digit zoom X Y (map (vert k) [0..<3]) (map (hor k) [0..<3]) W K k)
                 [0..<nat K] (replicate (nat H) (replicate (nat W) 0), []) = Inr (im, lbl)"
      by auto
    have "length lbl = nat K" using place_loop [OF f] by simp
    then show "?I (Suc k) c" using a c by auto
  qed
  then show ?thesis by (metis fst_conv snd_conv prod.collapse)
qed

lemma next_mix_batch_Inr:
  assumes "next_mix_batch zoom nhot perm vert hor make_hot bsz width height NUM s = (Inr (IMS, hot, LBLS), s')"
    and "B = or_default bsz MNISTDataSet_bsz" and "W = or_default width MNISTDataSet_width"
    and "H = or_default height MNISTDataSet_height" and "K = or_default NUM MNISTDataSet_num_a"
  shows "\<exists>X Y. next_batch perm (Some (B * K)) False s = (Inr (X, Y), s')
       \<and> fold_err (mix_scene zoom X Y vert hor W H K) [0..<nat B] ([], []) = Inr (IMS, LBLS)
       \<and> IMS \<noteq> []"
  using assms
  by (auto simp add: next_mix_batch_def Let_def np_stack_def split: sum.splits prod.splits if_splits)

lemma paste_keeps_shape:
  assumes "paste im W h v d = Inr im'" and "has_shape 14 14 d" and "has_shape H W im"
  shows "has_shape H W im'"
proof -
  define r0 where "r0 = slice_index (length im) h"
  define c0 where "c0 = slice_index W v"
  define nr where "nr = slice_index (length im) (h + width2) - r0"
  define nc where "nc = slice_index W (v + width2) - c0"
  have im: "length im = H" "\<forall>row\<in>set im. length row = W"
    using assms(3) by (auto simp add: has_shape_def list_all_iff)
  have d: "length d = 14" "\<forall>row\<in>set d. length row = 14" "d \<noteq> []"
    using assms(2) by (auto simp add: has_shape_def list_all_iff)
  have eq: "paste im W h v d =
      (case fit nr d of
         Inl e \<Rightarrow> Inl e
       | Inr rows \<Rightarrow>
           if list_all (\<lambda>row. length row = nc \<or> length row = 1) rows then
             Inr (take r0 im
                  @ map (\<lambda>(old, new). take c0 old
                           @ (if length new = nc then new else replicate nc (hd new))
                           @ drop (c0 + nc) old)
                      (zip (take nr (drop r0 im)) rows)
                  @ drop (r0 + nr) im)
           else Inl ValueError)"
    unfolding paste_def Let_def nr_def nc_def r0_def c0_def by (rule refl)
  from assms(1) obtain rows where f: "fit nr d = Inr rows"
    and a: "list_all (\<lambda>row. length row = nc \<or> length row = 1) rows"
    and im': "im' = take r0 im
        @ map (\<lambda>(old, new). take c0 old
                 @ (if length new = nc then new else replicate nc (hd new))
                 @ drop (c0 + nc) old)
            (zip (take nr (drop r0 im)) rows)
        @ drop (r0 + nr) im"
    unfolding eq by (auto split: sum.splits if_splits)
  from f d have nr: "nr = 14" "rows = d" by (auto simp add: fit_def split: if_splits)
  obtain row where "row \<in> set d" using d(3) by (cases d) auto
  then have nc: "nc = 14" using a d(2) nr by (auto simp add: list_all_iff)
  have rb: "r0 + 14 \<le> H"
    using slice_index_le [of "length im" "h + width2"] nr im by (simp add: nr_def)
  have cb: "c0 + 14 \<le> W"
    using slice_index_le [of W "v + width2"] nc by (simp add: nc_def)
  have "length im' = H" using im d rb by (simp add: im' nr)
  moreover have "length row = W" if "row \<in> set im'" for row
  proof -
    from that consider "row \<in> set (take r0 im)" | "row \<in> set (drop (r0 + nr) im)"
      | old new where "(old, new) \<in> set (zip (take nr (drop r0 im)) rows)"
          "row = take c0 old @ (if length new = nc then new else replicate nc (hd new))
                  @ drop (c0 + nc) old"
      by (auto simp add: im')
    then show ?thesis
    proof cases
      case 1
      then show ?thesis using im(2) by (meson in_set_takeD)
    next
      case 2
      then show ?thesis using im(2) by (meson in_set_dropD)
    next
      case 3
      have "old \<in> set im" using 3(1) by (meson in_set_zipE in_set_takeD in_set_dropD)
      then have "length old = W" using im(2) by simp
      moreover have "length new = 14" using 3(1) d(2) nr by (meson in_set_zipE)
      ultimately show ?thesis using 3(2) cb nc by simp
    qed
  qed
  ultimately show ?thesis by (simp add: has_shape_def list_all_iff)
qed

lemma place_loop_shape:
  assumes "fold_err (place_digit zoom X Y vs hs W K b) [0..<m] (im0, []) = Inr (im, lbl)"
    and "zoom_halves zoom" and "has_shape H (nat W) im0"
  shows "has_shape H (nat W) im"
proof -
  have "(\<lambda>k acc. has_shape H (nat W) (fst acc)) m (im, lbl)
      \<and> (\<forall>n<m. \<exists>a c. (\<lambda>k acc. has_shape H (nat W) (fst acc)) n a
            \<and> place_digit zoom X Y vs hs W K b n a = Inr c)"
  proof (rule fold_err_upt [OF assms(1)])
    show "has_shape H (nat W) (fst (im0, [] :: label list))" using assms(3) by simp
  next
    fix k and a c :: "real list list \<times> label list"
    assume s: "has_shape H (nat W) (fst a)" and p: "place_digit zoom X Y vs hs W K b k a = Inr c"
    from place_digit_Inr [of zoom X Y vs hs W K b k "fst a" "snd a" "fst c" "snd c"] p
    obtain x28 where x: "has_shape 28 28 x28"
      and q: "paste (fst a) (nat W) (hs ! k) (min (vs ! k + width2 * int k) (W - width2)) (zoom x28)
               = Inr (fst c)"
      by auto
    have "has_shape 14 14 (zoom x28)" using assms(2) x by (simp add: zoom_halves_def)
    from paste_keeps_shape [OF q this s] show "has_shape H (nat W) (fst c)" .
  qed
  then show ?thesis by simp
qed

lemma returned_in_bounds:
  assumes "next_mix_batch zoom nhot perm vert hor make_hot bsz width height NUM s
             = (Inr (IMS, hot, LBLS), s')"
    and "zoom_halves zoom"
    and "B = or_default bsz MNISTDataSet_bsz" and "W = or_default width MNISTDataSet_width"
    and "H = or_default height MNISTDataSet_height" and "K = or_default NUM MNISTDataSet_num_a"
    and "\<forall>b. in_range 0 (max (W div 3 - width2) 1) (vert b)"
    and "\<forall>b. in_range 0 (H - width2) (hor b)"
  shows "length IMS = nat B \<and> length LBLS = nat B
       \<and> (\<forall>l\<in>set LBLS. length l = nat K \<and> (0 \<le> K \<longrightarrow> int (length l) = K))
       \<and> (\<forall>im\<in>set IMS. has_shape (nat H) (nat W) im)
       \<and> (\<forall>b<nat B. \<forall>n<nat K.
             0 \<le> hor b n \<and> hor b n + width2 \<le> H
           \<and> 0 \<le> min (vert b n + width2 * int n) (W - width2)
           \<and> min (vert b n + width2 * int n) (W - width2) + width2 \<le> W)"
proof -
  from next_mix_batch_Inr [OF assms(1,3,4,5,6)] obtain X Y where
    f: "fold_err (mix_scene zoom X Y vert hor W H K) [0..<nat B] ([], []) = Inr (IMS, LBLS)"
    by blast
  note sl = scene_loop [OF f]
  have lens: "length IMS = nat B" "length LBLS = nat B" "\<forall>l\<in>set LBLS. length l = nat K"
    using sl by simp_all
  have shapes: "\<forall>im\<in>set IMS. has_shape (nat H) (nat W) im"
  proof -
    let ?I = "\<lambda>(k::nat) (acc :: real list list list \<times> label list list).
        \<forall>im\<in>set (fst acc). has_shape (nat H) (nat W) im"
    have "?I (nat B) (IMS, LBLS)
        \<and> (\<forall>b<nat B. \<exists>a c. ?I b a \<and> mix_scene zoom X Y vert hor W H K b a = Inr c)"
    proof (rule fold_err_upt [OF f])
      show "?I 0 ([], [])" by simp
    next
      fix k and a c :: "real list list list \<times> label list list"
      assume a: "?I k a" and m: "mix_scene zoom X Y vert hor W H K k a = Inr c"
      from mix_scene_Inr [of zoom X Y vert hor W H K k "fst a" "snd a" "fst c" "snd c"] m
      obtain im lbl where c: "fst c = fst a @ [im]"
        and g: "fold_err (place_digit zoom X Y (map (vert k) [0..<3]) (map (hor k) [0..<3]) W K k)
                   [0..<nat K] (replicate (nat H) (replicate (nat W) 0), []) = Inr (im, lbl)"
        by auto
      have "has_shape (nat H) (nat W) (replicate (nat H) (replicate (nat W) (0::real)))"
        by (simp add: has_shape_def list_all_iff)
      from place_loop_shape [OF g assms(2) this] show "?I (Suc k) c" using a c by auto
    qed
    then show ?thesis by simp
  qed
  have place: "0 \<le> hor b n \<and> hor b n + width2 \<le> H
           \<and> 0 \<le> min (vert b n + width2 * int n) (W - width2)
           \<and> min (vert b n + width2 * int n) (W - width2) + width2 \<le> W"
    if b: "b < nat B" and n: "n < nat K" for b n
  proof -
    from sl b obtain IM1 LBL1 IM2 LBL2 where
      "mix_scene zoom X Y vert hor W H K b (IM1, LBL1) = Inr (IM2, LBL2)" by blast
    from mix_scene_Inr [OF this] obtain im lbl where
      g: "fold_err (place_digit zoom X Y (map (vert b) [0..<3]) (map (hor b) [0..<3]) W K b)
            [0..<nat K] (replicate (nat H) (replicate (nat W) 0), []) = Inr (im, lbl)"
      and w0: "0 \<le> W"
      by blast
    from place_loop [OF g] n obtain im1 lbl1 im2 lbl2 where
      "place_digit zoom X Y (map (vert b) [0..<3]) (map (hor b) [0..<3]) W K b n (im1, lbl1)
         = Inr (im2, lbl2)" by blast
    from place_digit_Inr [OF this] obtain x28 where n3: "n < 3" and x: "has_shape 28 28 x28"
      and q: "paste im1 (nat W) (map (hor b) [0..<3] ! n)
                (min (map (vert b) [0..<3] ! n + width2 * int n) (W - width2)) (zoom x28) = Inr im2"
      by auto
    have "has_shape 14 14 (zoom x28)" using assms(2) x by (simp add: zoom_halves_def)
    from paste_needs_room [OF q this] have room: "14 \<le> W" by linarith
    have h: "0 \<le> hor b n" "hor b n < H - width2"
      using assms(8) by (simp_all add: in_range_def)
    have v: "0 \<le> vert b n" using assms(7) by (simp add: in_range_def)
    show ?thesis using h v room by (simp add: width2_def)
  qed
  show ?thesis using lens shapes place by simp
qed

lemma placed_in_bounds:
  assumes "place_digit zoom X Y (map (vert b) [0..<3]) (map (hor b) [0..<3]) W K b n (im, lbl)
             = Inr (im', lbl')"
    and "zoom_halves zoom"
    and "in_range 0 (max (W div 3 - width2) 1) (vert b)" and "in_range 0 (H - width2) (hor b)"
  shows "0 \<le> hor b n \<and> hor b n + width2 \<le> H
       \<and> 0 \<le> min (vert b n + width2 * int n) (W - width2)
       \<and> min (vert b n + width2 * int n) (W - width2) + width2 \<le> W"
proof -
  from place_digit_Inr [OF assms(1)] obtain x28 where x: "has_shape 28 28 x28"
    and q: "paste im (nat W) (map (hor b) [0..<3] ! n)
              (min (map (vert b) [0..<3] ! n + width2 * int n) (W - width2)) (zoom x28) = Inr im'"
    by auto
  have "has_shape 14 14 (zoom x28)" using assms(2) x by (simp add: zoom_halves_def)
  from paste_needs_room [OF q this] have room: "14 \<le> W" by linarith
  have h: "0 \<le> hor b n" "hor b n < H - width2"
    using assms(4) by (simp_all add: in_range_def)
  have v: "0 \<le> vert b n" using assms(3) by (simp add: in_range_def)
  show ?thesis using h v room by (simp add: width2_def)
qed

subsection \<open>C3: pasted blocks and label lists\<close>

text \<open>
  C3. Take any call of \<^verbatim>\<open>next_mix_batch\<close>, with any draws that \<^verbatim>\<open>randint\<close> can make for
  it. Every step of the placement loop that does not raise, for any scene \<open>b\<close> and
  component \<open>n\<close>, pastes its block inside the canvas: the rows from \<open>hor b n\<close> to
  \<open>hor b n + 14\<close> lie between 0 and the height, and the columns from
  \<open>min (vert b n + 14 * n) (width - 14)\<close> to that value plus 14 lie between 0 and the
  width. And whenever the call returns, that holds of every component of every scene,
  every returned canvas has \<^verbatim>\<open>height\<close> rows of \<^verbatim>\<open>width\<close> entries, there is one canvas
  and one label list per scene, and every label list has exactly \<^verbatim>\<open>NUM\<close> entries.
  (\<open>B\<close>, \<open>W\<close>, \<open>H\<close> and \<open>K\<close> are the batch size, width, height and component count in
  force: the arguments, or the class defaults.)
\<close>

theorem next_mix_batch_in_bounds:
  assumes "zoom_halves zoom"
    and "B = or_default bsz MNISTDataSet_bsz" and "W = or_default width MNISTDataSet_width"
    and "H = or_default height MNISTDataSet_height" and "K = or_default NUM MNISTDataSet_num_a"
    and "\<forall>b. in_range 0 (max (W div 3 - width2) 1) (vert b)"
    and "\<forall>b. in_range 0 (H - width2) (hor b)"
  shows "(place_digit zoom X Y (map (vert b) [0..<3]) (map (hor b) [0..<3]) W K b n (im, lbl)
            = Inr (im', lbl') \<longrightarrow>
            0 \<le> hor b n \<and> hor b n + width2 \<le> H
          \<and> 0 \<le> min (vert b n + width2 * int n) (W - width2)
          \<and> min (vert b n + width2 * int n) (W - width2) + width2 \<le> W)
       \<and> (next_mix_batch zoom nhot perm vert hor make_hot bsz width height NUM s
            = (Inr (IMS, hot, LBLS), s') \<longrightarrow>
            length IMS = nat B \<and> length LBLS = nat B
          \<and> (\<forall>l\<in>set LBLS. length l = nat K \<and> (0 \<le> K \<longrightarrow> int (length l) = K))
          \<and> (\<forall>im\<in>set IMS. has_shape (nat H) (nat W) im)
          \<and> (\<forall>b<nat B. \<forall>n<nat K.
                0 \<le> hor b n \<and> hor b n + width2 \<le> H
              \<and> 0 \<le> min (vert b n + width2 * int n) (W - width2)
              \<and> min (vert b n + width2 * int n) (W - width2) + width2 \<le> W))"
proof -
  have p: "0 \<le> hor b n \<and> hor b n + width2 \<le> H
          \<and> 0 \<le> min (vert b n + width2 * int n) (W - width2)
          \<and> min (vert b n + width2 * int n) (W - width2) + width2 \<le> W"
    if "place_digit zoom X Y (map (vert b) [0..<3]) (map (hor b) [0..<3]) W K b n (im, lbl)
            = Inr (im', lbl')"
    using placed_in_bounds [where vert = vert and hor = hor and b = b and H = H, OF that assms(1)]
      assms(6,7)
    by simp
  have r: "length IMS = nat B \<and> length LBLS = nat B
          \<and> (\<forall>l\<in>set LBLS. length l = nat K \<and> (0 \<le> K \<longrightarrow> int (length l) = K))
          \<and> (\<forall>im\<in>set IMS. has_shape (nat H) (nat W) im)
          \<and> (\<forall>b<nat B. \<forall>n<nat K.
                0 \<le> hor b n \<and> hor b n + width2 \<le> H
              \<and> 0 \<le> min (vert b n + width2 * int n) (W - width2)
              \<and> min (vert b n + width2 * int n) (W - width2) + width2 \<le> W)"
    if "next_mix_batch zoom nhot perm vert hor make_hot bsz width height NUM s
            = (Inr (IMS, hot, LBLS), s')"
    using returned_in_bounds [OF that assms] .
  show ?thesis using p r by blast
qed

subsection \<open>When \<^verbatim>\<open>next_mix_batch\<close> returns\<close>

lemma next_batch_succeeds:
  assumes "wf_pool s" and "is_shuffle (num_examples s) perm"
    and "0 \<le> n" "n \<le> num_examples s" "0 \<le> index_in_epoch s"
  shows "\<exists>X Y s'. next_batch perm (Some n) False s = (Inr (X, Y), s')
       \<and> length X = nat n \<and> length Y = nat n \<and> set X \<subseteq> set (images s)"
proof -
  define s' where "s' = snd (next_batch_range perm n s)"
  have wf': "wf_pool s'" "num_examples s' = num_examples s"
    using next_batch_range_keeps_wf [OF assms(1,2), of n] by (simp_all add: s'_def)
  have len: "int (length (images s')) = num_examples s" "int (length (labels s')) = num_examples s"
    using wf' by (simp_all add: wf_pool_def)
  have sub: "set (images s') \<subseteq> set (images s)"
  proof (cases "num_examples s < index_in_epoch s + n")
    case True
    have "\<forall>i\<in>set perm. i < length (images s)"
      using is_shuffle_set [OF assms(2)] assms(1) by (simp add: wf_pool_def)
    then show ?thesis
      using True by (auto simp add: s'_def next_batch_range_wf [OF assms(1,2)])
  next
    case False
    then show ?thesis by (simp add: s'_def next_batch_range_wf [OF assms(1,2)])
  qed
  obtain a where r: "next_batch_range perm n s = (Inr (a, a + n), s')" and a: "0 \<le> a"
    "a + n \<le> num_examples s"
    using assms(3,4,5) by (cases "num_examples s < index_in_epoch s + n")
      (simp_all add: s'_def next_batch_range_wf [OF assms(1,2)])
  have X: "py_slice (images s') a (a + n) = take (nat n) (drop (nat a) (images s'))"
    by (rule py_slice_inside) (use a assms(3) len in simp_all)
  have Y: "py_slice (labels s') a (a + n) = take (nat n) (drop (nat a) (labels s'))"
    by (rule py_slice_inside) (use a assms(3) len in simp_all)
  have "next_batch perm (Some n) False s
      = (Inr (take (nat n) (drop (nat a) (images s')), take (nat n) (drop (nat a) (labels s'))), s')"
    using r X Y by (simp add: next_batch_def or_default_def)
  moreover have "length (take (nat n) (drop (nat a) (images s'))) = nat n"
    "length (take (nat n) (drop (nat a) (labels s'))) = nat n"
    using a assms(3) len by simp_all
  moreover have "set (take (nat n) (drop (nat a) (images s'))) \<subseteq> set (images s)"
    using sub by (meson in_set_takeD in_set_dropD subsetD subsetI)
  ultimately show ?thesis by blast
qed

lemma place_digit_succeeds:
  assumes "zoom_halves zoom" and "has_shape (nat H) (nat W) im"
    and "n < 3" and "nat (int b * K + int n) < length X" and "nat (int b * K + int n) < length Y"
    and "length (X ! nat (int b * K + int n)) = 784"
    and "0 \<le> hor b n" "hor b n + 14 \<le> H" "0 \<le> vert b n" "14 \<le> W"
  shows "\<exists>im'. place_digit zoom X Y (map (vert b) [0..<3]) (map (hor b) [0..<3]) W K b n (im, lbl)
            = Inr (im', lbl @ [Y ! nat (int b * K + int n)])
       \<and> has_shape (nat H) (nat W) im'"
proof -
  let ?i = "nat (int b * K + int n)"
  have g: "getitem (map (hor b) [0..<3]) n = Inr (hor b n)"
    "getitem (map (vert b) [0..<3]) n = Inr (vert b n)"
    using assms(3) by (simp_all add: getitem_def)
  have x: "getitem X ?i = Inr (X ! ?i)" "getitem Y ?i = Inr (Y ! ?i)"
    using assms(4,5) by (simp_all add: getitem_def)
  have r: "reshape_28_28 (X ! ?i) = Inr (chunk 28 28 (X ! ?i))"
    using assms(6) by (simp add: reshape_28_28_def)
  have "has_shape 28 28 (chunk 28 28 (X ! ?i))" using reshape_28_28_shape [OF r] .
  then have d: "has_shape 14 14 (zoom (chunk 28 28 (X ! ?i)))"
    using assms(1) by (simp add: zoom_halves_def)
  let ?v = "min (vert b n + width2 * int n) (W - width2)"
  have v: "0 \<le> ?v" "?v + 14 \<le> int (nat W)" using assms(9,10) by (simp_all add: width2_def)
  have h: "0 \<le> hor b n" "hor b n + 14 \<le> int (nat H)" using assms(7,8) by simp_all
  from paste_inside [OF assms(2) d h v] obtain im' where
    p: "paste im (nat W) (hor b n) ?v (zoom (chunk 28 28 (X ! ?i))) = Inr im'"
    and s: "has_shape (nat H) (nat W) im'" by blast
  have "place_digit zoom X Y (map (vert b) [0..<3]) (map (hor b) [0..<3]) W K b n (im, lbl)
      = Inr (im', lbl @ [Y ! ?i])"
    by (simp add: place_digit_def g x r p Let_def)
  then show ?thesis using s by blast
qed

lemma place_loop_succeeds:
  assumes "zoom_halves zoom" and "has_shape (nat H) (nat W) im0"
    and "m \<le> 3"
    and "\<forall>n<m. nat (int b * K + int n) < length X \<and> nat (int b * K + int n) < length Y
           \<and> length (X ! nat (int b * K + int n)) = 784"
    and "\<forall>n. 0 \<le> hor b n \<and> hor b n + 14 \<le> H \<and> 0 \<le> vert b n" and "14 \<le> W"
  shows "\<exists>im. fold_err (place_digit zoom X Y (map (vert b) [0..<3]) (map (hor b) [0..<3]) W K b)
             [0..<m] (im0, []) = Inr (im, map (\<lambda>n. Y ! nat (int b * K + int n)) [0..<m])
       \<and> has_shape (nat H) (nat W) im"
  using assms(3,4)
proof (induction m)
  case 0
  then show ?case using assms(2) by simp
next
  case (Suc m)
  from Suc obtain im where
    f: "fold_err (place_digit zoom X Y (map (vert b) [0..<3]) (map (hor b) [0..<3]) W K b)
             [0..<m] (im0, []) = Inr (im, map (\<lambda>n. Y ! nat (int b * K + int n)) [0..<m])"
    and s: "has_shape (nat H) (nat W) im" by auto
  have m: "m < 3" using Suc.prems(1) by simp
  have i: "nat (int b * K + int m) < length X" "nat (int b * K + int m) < length Y"
    "length (X ! nat (int b * K + int m)) = 784"
    using Suc.prems(2) by simp_all
  have d: "0 \<le> hor b m" "hor b m + 14 \<le> H" "0 \<le> vert b m" using assms(5) by simp_all
  from place_digit_succeeds [where hor = hor and vert = vert and b = b and n = m
      and lbl = "map (\<lambda>n. Y ! nat (int b * K + int n)) [0..<m]", OF assms(1) s m i d assms(6)]
  obtain im' where
    p: "place_digit zoom X Y (map (vert b) [0..<3]) (map (hor b) [0..<3]) W K b m
          (im, map (\<lambda>n. Y ! nat (int b * K + int n)) [0..<m])
        = Inr (im', map (\<lambda>n. Y ! nat (int b * K + int n)) [0..<m] @ [Y ! nat (int b * K + int m)])"
    and s': "has_shape (nat H) (nat W) im'" by blast
  have "fold_err (place_digit zoom X Y (map (vert b) [0..<3]) (map (hor b) [0..<3]) W K b)
             [0..<Suc m] (im0, []) = Inr (im', map (\<lambda>n. Y ! nat (int b * K + int n)) [0..<Suc m])"
    using f p by (simp add: fold_err_append)
  then show ?case using s' by blast
qed

lemma mix_scene_succeeds:
  assumes "zoom_halves zoom" and "0 \<le> K" "K \<le> 3" and "14 \<le> W" "14 < H"
    and "in_range 0 (max (W div 3 - width2) 1) (vert b)" and "in_range 0 (H - width2) (hor b)"
    and "\<forall>n<nat K. nat (int b * K + int n) < length X \<and> nat (int b * K + int n) < length Y
           \<and> length (X ! nat (int b * K + int n)) = 784"
  shows "\<exists>im. mix_scene zoom X Y vert hor W H K b (IM, LBL)
            = Inr (IM @ [im], LBL @ [map (\<lambda>n. Y ! nat (int b * K + int n)) [0..<nat K]])"
proof -
  have z: "np_zeros H W = Inr (replicate (nat H) (replicate (nat W) 0))"
    using assms(4,5) by (simp add: np_zeros_def)
  have s0: "has_shape (nat H) (nat W) (replicate (nat H) (replicate (nat W) (0::real)))"
    by (simp add: has_shape_def list_all_iff)
  have rv: "randint 0 (max (W div 3 - width2) 1) 3 (vert b) = Inr (map (vert b) [0..<3])"
    by (simp add: randint_def)
  have rh: "randint 0 (H - width2) 3 (hor b) = Inr (map (hor b) [0..<3])"
    using assms(5) by (simp add: randint_def width2_def)
  have m: "nat K \<le> 3" using assms(3) by simp
  have d: "\<forall>n. 0 \<le> hor b n \<and> hor b n + 14 \<le> H \<and> 0 \<le> vert b n"
  proof
    fix n
    have "0 \<le> hor b n \<and> hor b n < H - 14" using assms(7) by (simp add: in_range_def width2_def)
    moreover have "0 \<le> vert b n" using assms(6) by (simp add: in_range_def)
    ultimately show "0 \<le> hor b n \<and> hor b n + 14 \<le> H \<and> 0 \<le> vert b n" by linarith
  qed
  from place_loop_succeeds [where hor = hor and vert = vert and b = b, OF assms(1) s0 m assms(8) d assms(4)]
  obtain im where
    "fold_err (place_digit zoom X Y (map (vert b) [0..<3]) (map (hor b) [0..<3]) W K b)
        [0..<nat K] (replicate (nat H) (replicate (nat W) 0), [])
      = Inr (im, map (\<lambda>n. Y ! nat (int b * K + int n)) [0..<nat K])"
    by blast
  then have "mix_scene zoom X Y vert hor W H K b (IM, LBL)
      = Inr (IM @ [im], LBL @ [map (\<lambda>n. Y ! nat (int b * K + int n)) [0..<nat K]])"
    by (simp add: mix_scene_def z rv rh)
  then show ?thesis by blast
qed

lemma scene_index:
  assumes "b < nat B" "n < nat K"
  shows "nat (int b * K + int n) < nat (B * K)"
proof -
  have k: "0 \<le> K" "int n + 1 \<le> K" using assms(2) by simp_all
  have "int b \<le> B - 1" using assms(1) by simp
  then have "int b * K \<le> (B - 1) * K" using k(1) by (rule mult_right_mono)
  then have "int b * K + int n < B * K" using k(2) by (simp add: algebra_simps)
  moreover have "0 \<le> int b * K + int n" using k(1) by simp
  ultimately show ?thesis by (simp add: nat_less_eq_zless)
qed

lemma scene_loop_succeeds:
  assumes "zoom_halves zoom" and "0 \<le> K" "K \<le> 3" and "14 \<le> W" "14 < H"
    and "\<forall>b. in_range 0 (max (W div 3 - width2) 1) (vert b)"
    and "\<forall>b. in_range 0 (H - width2) (hor b)"
    and "length X = nat (B * K)" "length Y = nat (B * K)" "\<forall>x\<in>set X. length x = 784"
    and "m \<le> nat B"
  shows "\<exists>IM. fold_err (mix_scene zoom X Y vert hor W H K) [0..<m] ([], [])
            = Inr (IM, map (\<lambda>b. map (\<lambda>n. Y ! nat (int b * K + int n)) [0..<nat K]) [0..<m])"
  using assms(11)
proof (induction m)
  case 0
  then show ?case by simp
next
  case (Suc m)
  then obtain IM where
    f: "fold_err (mix_scene zoom X Y vert hor W H K) [0..<m] ([], [])
            = Inr (IM, map (\<lambda>b. map (\<lambda>n. Y ! nat (int b * K + int n)) [0..<nat K]) [0..<m])"
    by auto
  have mB: "m < nat B" using Suc.prems by simp
  have idx: "\<forall>n<nat K. nat (int m * K + int n) < length X \<and> nat (int m * K + int n) < length Y
           \<and> length (X ! nat (int m * K + int n)) = 784"
    using scene_index [OF mB] assms(8,9,10) by simp
  have v: "in_range 0 (max (W div 3 - width2) 1) (vert m)" and h: "in_range 0 (H - width2) (hor m)"
    using assms(6,7) by simp_all
  from mix_scene_succeeds [where vert = vert and hor = hor and b = m and IM = IM
      and LBL = "map (\<lambda>b. map (\<lambda>n. Y ! nat (int b * K + int n)) [0..<nat K]) [0..<m]",
      OF assms(1,2,3,4,5) v h idx]
  obtain im where
    "mix_scene zoom X Y vert hor W H K m
       (IM, map (\<lambda>b. map (\<lambda>n. Y ! nat (int b * K + int n)) [0..<nat K]) [0..<m])
     = Inr (IM @ [im], map (\<lambda>b. map (\<lambda>n. Y ! nat (int b * K + int n)) [0..<nat K]) [0..<m]
              @ [map (\<lambda>n. Y ! nat (int m * K + int n)) [0..<nat K]])"
    by blast
  then have "fold_err (mix_scene zoom X Y vert hor W H K) [0..<Suc m] ([], [])
      = Inr (IM @ [im], map (\<lambda>b. map (\<lambda>n. Y ! nat (int b * K + int n)) [0..<nat K]) [0..<Suc m])"
    using f by (simp add: fold_err_append)
  then show ?case by blast
qed

text \<open>
  When \<^verbatim>\<open>next_mix_batch\<close> returns: a pool as the constructor builds it, of images of 784
  pixels, that holds the \<open>B * K\<close> examples asked for; at least one scene; at most three
  components; a canvas that has room for a digit.
\<close>

lemma next_mix_batch_succeeds:
  assumes "wf_pool s" and "\<forall>x\<in>set (images s). length x = 784" and "0 \<le> index_in_epoch s"
    and "is_shuffle (num_examples s) perm" and "zoom_halves zoom"
    and "B = or_default bsz MNISTDataSet_bsz" and "W = or_default width MNISTDataSet_width"
    and "H = or_default height MNISTDataSet_height" and "K = or_default NUM MNISTDataSet_num_a"
    and "1 \<le> B" and "0 \<le> K" "K \<le> 3" and "B * K \<le> num_examples s"
    and "14 \<le> W" "14 < H"
    and "\<forall>b. in_range 0 (max (W div 3 - width2) 1) (vert b)"
    and "\<forall>b. in_range 0 (H - width2) (hor b)"
  shows "\<exists>X Y IMS LBLS s'.
           next_batch perm (Some (B * K)) False s = (Inr (X, Y), s')
         \<and> LBLS = map (\<lambda>b. map (\<lambda>n. Y ! nat (int b * K + int n)) [0..<nat K]) [0..<nat B]
         \<and> next_mix_batch zoom nhot perm vert hor make_hot bsz width height NUM s
            = (Inr (IMS, if make_hot then Some (nhot LBLS) else None, LBLS), s')"
proof -
  have n0: "0 \<le> B * K" using assms(10,11) by simp
  from next_batch_succeeds [OF assms(1,4) n0 assms(13,3)] obtain X Y s' where
    nb: "next_batch perm (Some (B * K)) False s = (Inr (X, Y), s')"
    and l: "length X = nat (B * K)" "length Y = nat (B * K)"
    and sub: "set X \<subseteq> set (images s)" by blast
  have px: "\<forall>x\<in>set X. length x = 784" using sub assms(2) by blast
  from scene_loop_succeeds [OF assms(5,11,12,14,15,16,17) l px order_refl] obtain IM where
    f: "fold_err (mix_scene zoom X Y vert hor W H K) [0..<nat B] ([], [])
            = Inr (IM, map (\<lambda>b. map (\<lambda>n. Y ! nat (int b * K + int n)) [0..<nat K]) [0..<nat B])"
    by blast
  have "length IM = nat B" using scene_loop [OF f] by simp
  then have ne: "IM \<noteq> []" using assms(10) by auto
  have ne': "[0..<nat B] \<noteq> []" using assms(10) by simp
  have "next_mix_batch zoom nhot perm vert hor make_hot bsz width height NUM s
      = (Inr (IM, if make_hot
                  then Some (nhot (map (\<lambda>b. map (\<lambda>n. Y ! nat (int b * K + int n)) [0..<nat K]) [0..<nat B]))
                  else None,
              map (\<lambda>b. map (\<lambda>n. Y ! nat (int b * K + int n)) [0..<nat K]) [0..<nat B]), s')"
    using nb f ne ne' assms(6,7,8,9)
    by (simp add: next_mix_batch_def Let_def np_stack_def)
  then show ?thesis using nb by blast
qed

subsection \<open>C9: three bands\<close>

lemma next_mix_batch_needs_three:
  assumes "next_mix_batch zoom nhot perm vert hor make_hot bsz width height NUM s = (Inr r, s')"
  shows "or_default NUM MNISTDataSet_num_a \<le> 3"
proof (rule ccontr)
  define B K W H where "B = or_default bsz MNISTDataSet_bsz" and "K = or_default NUM MNISTDataSet_num_a"
    and "W = or_default width MNISTDataSet_width" and "H = or_default height MNISTDataSet_height"
  assume "\<not> or_default NUM MNISTDataSet_num_a \<le> 3"
  then have k: "3 < nat K" by (simp add: K_def)
  obtain IMS hot LBLS where r: "r = (IMS, hot, LBLS)" by (cases r)
  from next_mix_batch_Inr [OF assms [unfolded r] B_def W_def H_def K_def] obtain X Y where
    f: "fold_err (mix_scene zoom X Y vert hor W H K) [0..<nat B] ([], []) = Inr (IMS, LBLS)"
    and ne: "IMS \<noteq> []" by blast
  note sl = scene_loop [OF f]
  have "length IMS = nat B" using sl by simp
  then have "0 < nat B" using ne by (metis length_greater_0_conv)
  with sl obtain IM1 LBL1 IM2 LBL2 where
    "mix_scene zoom X Y vert hor W H K 0 (IM1, LBL1) = Inr (IM2, LBL2)" by blast
  from mix_scene_Inr [OF this] obtain im lbl where
    "fold_err (place_digit zoom X Y (map (vert 0) [0..<3]) (map (hor 0) [0..<3]) W K 0)
        [0..<nat K] (replicate (nat H) (replicate (nat W) 0), []) = Inr (im, lbl)"
    by blast
  from place_loop [OF this] k obtain im1 lbl1 im2 lbl2 where
    "place_digit zoom X Y (map (vert 0) [0..<3]) (map (hor 0) [0..<3]) W K 0 3 (im1, lbl1)
       = Inr (im2, lbl2)" by blast
  from place_digit_Inr [OF this] show False by simp
qed

lemma next_mix_batch_fourth_band:
  assumes "wf_pool s" and "\<forall>x\<in>set (images s). length x = 784" and "0 \<le> index_in_epoch s"
    and "is_shuffle (num_examples s) perm" and "zoom_halves zoom"
    and "B = or_default bsz MNISTDataSet_bsz" and "W = or_default width MNISTDataSet_width"
    and "H = or_default height MNISTDataSet_height" and "K = or_default NUM MNISTDataSet_num_a"
    and "1 \<le> B" and "3 < K" and "B * K \<le> num_examples s"
    and "14 \<le> W" "14 < H"
    and "\<forall>b. in_range 0 (max (W div 3 - width2) 1) (vert b)"
    and "\<forall>b. in_range 0 (H - width2) (hor b)"
  shows "fst (next_mix_batch zoom nhot perm vert hor make_hot bsz width height NUM s) = Inl IndexError"
proof -
  have n0: "0 \<le> B * K" using assms(10,11) by simp
  from next_batch_succeeds [OF assms(1,4) n0 assms(12,3)] obtain X Y s' where
    nb: "next_batch perm (Some (B * K)) False s = (Inr (X, Y), s')"
    and l: "length X = nat (B * K)" "length Y = nat (B * K)"
    and sub: "set X \<subseteq> set (images s)" by blast
  have px: "\<forall>x\<in>set X. length x = 784" using sub assms(2) by blast
  have z: "np_zeros H W = Inr (replicate (nat H) (replicate (nat W) 0))"
    using assms(13,14) by (simp add: np_zeros_def)
  have s0: "has_shape (nat H) (nat W) (replicate (nat H) (replicate (nat W) (0::real)))"
    by (simp add: has_shape_def list_all_iff)
  have rv: "randint 0 (max (W div 3 - width2) 1) 3 (vert 0) = Inr (map (vert 0) [0..<3])"
    by (simp add: randint_def)
  have rh: "randint 0 (H - width2) 3 (hor 0) = Inr (map (hor 0) [0..<3])"
    using assms(14) by (simp add: randint_def width2_def)
  have d: "\<forall>n. 0 \<le> hor 0 n \<and> hor 0 n + 14 \<le> H \<and> 0 \<le> vert 0 n"
  proof
    fix n
    have "0 \<le> hor 0 n \<and> hor 0 n < H - 14" using assms(16) by (simp add: in_range_def width2_def)
    moreover have "0 \<le> vert 0 n" using assms(15) by (simp add: in_range_def)
    ultimately show "0 \<le> hor 0 n \<and> hor 0 n + 14 \<le> H \<and> 0 \<le> vert 0 n" by linarith
  qed
  have b0: "(0::nat) < nat B" using assms(10) by simp
  have idx: "\<forall>n<3. nat (int 0 * K + int n) < length X \<and> nat (int 0 * K + int n) < length Y
           \<and> length (X ! nat (int 0 * K + int n)) = 784"
  proof (intro allI impI)
    fix n :: nat
    assume "n < 3"
    then have "n < nat K" using assms(11) by simp
    from scene_index [OF b0 this] show "nat (int 0 * K + int n) < length X
        \<and> nat (int 0 * K + int n) < length Y \<and> length (X ! nat (int 0 * K + int n)) = 784"
      using l px by simp
  qed
  from place_loop_succeeds [where hor = hor and vert = vert and b = 0 and m = 3,
      OF assms(5) s0 order_refl idx d assms(13)]
  obtain im where
    three: "fold_err (place_digit zoom X Y (map (vert 0) [0..<3]) (map (hor 0) [0..<3]) W K 0)
        [0..<3] (replicate (nat H) (replicate (nat W) 0), [])
      = Inr (im, map (\<lambda>n. Y ! nat (int 0 * K + int n)) [0..<3])"
    by blast
  have fourth: "place_digit zoom X Y (map (vert 0) [0..<3]) (map (hor 0) [0..<3]) W K 0 3 acc
      = Inl IndexError" for acc
    by (simp add: place_digit_def getitem_def split: prod.splits)
  have k3: "3 < nat K" using assms(11) by simp
  then have "[0..<nat K] = [0..<3] @ [3..<nat K]"
    using upt_add_eq_append [of 0 3 "nat K - 3"] by simp
  moreover have "[3..<nat K] = 3 # [Suc 3..<nat K]" using k3 by (simp add: upt_conv_Cons)
  ultimately have "[0..<nat K] = [0..<3] @ 3 # [Suc 3..<nat K]" by simp
  then have "fold_err (place_digit zoom X Y (map (vert 0) [0..<3]) (map (hor 0) [0..<3]) W K 0)
        [0..<nat K] (replicate (nat H) (replicate (nat W) 0), []) = Inl IndexError"
    using three fourth by (simp add: fold_err_append)
  then have m0: "mix_scene zoom X Y vert hor W H K 0 ([], []) = Inl IndexError"
    by (simp add: mix_scene_def z rv rh)
  have "[0..<nat B] = 0 # [1..<nat B]" using b0 by (simp add: upt_conv_Cons)
  then have "fold_err (mix_scene zoom X Y vert hor W H K) [0..<nat B] ([], []) = Inl IndexError"
    using m0 by simp
  then show ?thesis
    using nb assms(6,7,8,9) by (simp add: next_mix_batch_def Let_def)
qed

text \<open>
  C9. \<^verbatim>\<open>next_mix_batch\<close> draws three vertical and three horizontal offsets per scene,
  whatever \<^verbatim>\<open>NUM\<close> is (\<open>K\<close> below: the argument, or the class default). So every call
  with \<open>K\<close> above 3 fails: the call can only return when \<open>K\<close> is at most 3. When nothing
  else stands in the way (a pool as the constructor builds it, of images of 784 pixels,
  that holds the \<open>B * K\<close> examples; at least one scene; a canvas with room for a digit),
  the failure is the index error of the fourth component, which reads \<^verbatim>\<open>hor[3]\<close>.
\<close>
theorem next_mix_batch_three_bands:
  assumes "K = or_default NUM MNISTDataSet_num_a" and "3 < K"
    and "B = or_default bsz MNISTDataSet_bsz" and "W = or_default width MNISTDataSet_width"
    and "H = or_default height MNISTDataSet_height"
  shows "(\<exists>e. fst (next_mix_batch zoom nhot perm vert hor make_hot bsz width height NUM s) = Inl e)
       \<and> (wf_pool s \<and> (\<forall>x\<in>set (images s). length x = 784) \<and> 0 \<le> index_in_epoch s
            \<and> is_shuffle (num_examples s) perm \<and> zoom_halves zoom
            \<and> 1 \<le> B \<and> B * K \<le> num_examples s \<and> 14 \<le> W \<and> 14 < H
            \<and> (\<forall>b. in_range 0 (max (W div 3 - width2) 1) (vert b))
            \<and> (\<forall>b. in_range 0 (H - width2) (hor b))
          \<longrightarrow> fst (next_mix_batch zoom nhot perm vert hor make_hot bsz width height NUM s)
                = Inl IndexError)"
proof -
  let ?mix = "next_mix_batch zoom nhot perm vert hor make_hot bsz width height NUM s"
  have "\<exists>e. fst ?mix = Inl e"
  proof (cases ?mix)
    case (Pair res t)
    show ?thesis
    proof (cases res)
      case (Inl e)
      then show ?thesis using Pair by simp
    next
      case (Inr r)
      then have "?mix = (Inr r, t)" using Pair by simp
      from next_mix_batch_needs_three [OF this] assms(1,2) show ?thesis by simp
    qed
  qed
  moreover have "fst ?mix = Inl IndexError"
    if "wf_pool s \<and> (\<forall>x\<in>set (images s). length x = 784) \<and> 0 \<le> index_in_epoch s
            \<and> is_shuffle (num_examples s) perm \<and> zoom_halves zoom
            \<and> 1 \<le> B \<and> B * K \<le> num_examples s \<and> 14 \<le> W \<and> 14 < H
            \<and> (\<forall>b. in_range 0 (max (W div 3 - width2) 1) (vert b))
            \<and> (\<forall>b. in_range 0 (H - width2) (hor b))"
    using that assms
    by (intro next_mix_batch_fourth_band [where B = B and W = W and H = H and K = K]) simp_all
  ultimately show ?thesis by blast
qed

section \<open>Facts about \<^verbatim>\<open>simulate_logged_bandit\<close>\<close>

subsection \<open>C5: the reward of a recommendation\<close>

lemma bandit_reward_Inr:
  assumes "bandit_reward LBL rec k r = Inr r'"
  shows "k < length rec \<and> k < length LBL
       \<and> r' = (if label_in (rec ! k) (LBL ! k) then r[k := 1] else r)"
  using assms by (auto simp add: bandit_reward_def getitem_def split: sum.splits if_splits)

lemma bandit_loop:
  assumes "fold_err (bandit_reward LBL rec) [0..<m] (replicate M 0) = Inr reward"
    and "length rec = M"
  shows "length reward = M \<and> m \<le> M \<and> m \<le> length LBL
       \<and> (\<forall>i<m. reward ! i = (if label_in (rec ! i) (LBL ! i) then 1 else 0))"
proof -
  let ?I = "\<lambda>k (r :: real list). length r = M \<and> k \<le> M \<and> k \<le> length LBL
      \<and> (\<forall>i<k. r ! i = (if label_in (rec ! i) (LBL ! i) then 1 else 0))
      \<and> (\<forall>i. k \<le> i \<and> i < M \<longrightarrow> r ! i = 0)"
  have "?I m reward \<and> (\<forall>k<m. \<exists>a c. ?I k a \<and> bandit_reward LBL rec k a = Inr c)"
  proof (rule fold_err_upt [OF assms(1)])
    show "?I 0 (replicate M 0)" by simp
  next
    fix k and a c :: "real list"
    assume a: "?I k a" and s: "bandit_reward LBL rec k a = Inr c"
    note b = bandit_reward_Inr [OF s]
    have k: "k < M" "k < length LBL" "k < length a" using b a assms(2) by simp_all
    have c: "c = (if label_in (rec ! k) (LBL ! k) then a[k := 1] else a)" using b by simp
    have "c ! i = (if label_in (rec ! i) (LBL ! i) then 1 else 0)" if "i < Suc k" for i
    proof (cases "i = k")
      case True
      then show ?thesis using c k a by auto
    next
      case False
      then have "i < k" using that by simp
      then show ?thesis using c a False by auto
    qed
    moreover have "c ! i = 0" if "Suc k \<le> i \<and> i < M" for i
      using c a that by auto
    moreover have "length c = M" using c a by auto
    ultimately show "?I (Suc k) c" using k by auto
  qed
  then show ?thesis by simp
qed

lemma bandit_loop_succeeds:
  assumes "m \<le> length LBL" and "m \<le> length rec"
  shows "\<exists>reward. fold_err (bandit_reward LBL rec) [0..<m] r0 = Inr reward"
  using assms
proof (induction m)
  case 0
  then show ?case by simp
next
  case (Suc m)
  then obtain reward where "fold_err (bandit_reward LBL rec) [0..<m] r0 = Inr reward" by auto
  moreover have "\<exists>r'. bandit_reward LBL rec m reward = Inr r'"
    using Suc.prems by (simp add: bandit_reward_def getitem_def)
  ultimately show ?case by (auto simp add: fold_err_append)
qed

lemma bandit_loop_fails:
  assumes "length LBL < m" and "m \<le> length rec"
  shows "fold_err (bandit_reward LBL rec) [0..<m] r0 = Inl IndexError"
proof -
  let ?L = "length LBL"
  have "[0..<m] = [0..<?L] @ [?L..<m]"
    using assms(1) upt_add_eq_append [of 0 ?L "m - ?L"] by simp
  moreover have "[?L..<m] = ?L # [Suc ?L..<m]" using assms(1) by (simp add: upt_conv_Cons)
  ultimately have sp: "[0..<m] = [0..<?L] @ ?L # [Suc ?L..<m]" by simp
  from bandit_loop_succeeds [of ?L LBL rec r0] assms obtain reward where
    f: "fold_err (bandit_reward LBL rec) [0..<?L] r0 = Inr reward" by auto
  have "bandit_reward LBL rec ?L reward = Inl IndexError"
    using assms by (simp add: bandit_reward_def getitem_def)
  then show ?thesis using f by (simp add: sp fold_err_append)
qed

lemma label_in_scalar:
  assumes "list_all is_Scalar row"
  shows "label_in a row \<longleftrightarrow> Scalar a \<in> set row"
proof -
  have "(case l of Scalar v \<Rightarrow> v = a | OneHot vs \<Rightarrow> list_ex (\<lambda>v. v = a) vs) \<longleftrightarrow> l = Scalar a"
    if "is_Scalar l" for l
    using that by (cases l) (auto simp add: is_Scalar_def)
  then show ?thesis
    using assms by (auto simp add: label_in_def list_ex_iff list_all_iff)
qed

lemma simulate_rewards:
  assumes "simulate_logged_bandit zoom onehot perm vert hor recommend bsz s
             = (Inr (IM, A, reward), s')"
    and "b = or_default bsz MNISTDataSet_bsz"
  shows "\<exists>hot LBL.
           next_mix_batch zoom (\<lambda>_. ()) perm vert hor False None None None None s
             = (Inr (IM, hot, LBL), s')
         \<and> length IM = 16 \<and> length LBL = 16
         \<and> A = onehot (map recommend [0..<nat b])
         \<and> length reward = nat b \<and> nat b \<le> length LBL
         \<and> (\<forall>i<nat b. reward ! i = (if label_in (recommend i) (LBL ! i) then 1 else 0))"
proof -
  from assms obtain hot LBL where
    m: "next_mix_batch zoom (\<lambda>_. ()) perm vert hor False None None None None s
          = (Inr (IM, hot, LBL), s')"
    and b0: "0 \<le> b"
    and A: "A = onehot (map recommend [0..<nat b])"
    and f: "fold_err (bandit_reward LBL (map recommend [0..<nat b])) [0..<nat b]
              (replicate (nat b) 0) = Inr reward"
    by (auto simp add: simulate_logged_bandit_def Let_def randint_def MNISTDataSet_num_actions_def
        split: sum.splits prod.splits if_splits)
  have d: "(16::int) = or_default None MNISTDataSet_bsz"
    "MNISTDataSet_width = or_default None MNISTDataSet_width"
    "MNISTDataSet_height = or_default None MNISTDataSet_height"
    "MNISTDataSet_num_a = or_default None MNISTDataSet_num_a"
    by (simp_all add: or_default_def MNISTDataSet_bsz_def)
  from next_mix_batch_Inr [OF m d] obtain X Y where
    g: "fold_err (mix_scene zoom X Y vert hor MNISTDataSet_width MNISTDataSet_height MNISTDataSet_num_a)
          [0..<nat 16] ([], []) = Inr (IM, LBL)" by blast
  have len: "length IM = 16" "length LBL = 16" using scene_loop [OF g] by simp_all
  have l: "length (map recommend [0..<nat b]) = nat b" by simp
  note bl = bandit_loop [OF f l]
  have "\<forall>i<nat b. reward ! i = (if label_in (recommend i) (LBL ! i) then 1 else 0)"
    using bl by simp
  then show ?thesis using m A bl len by blast
qed

text \<open>
  C5, as the code has it. Whenever \<^verbatim>\<open>simulate_logged_bandit\<close> returns, its 16 scenes, their
  label lists \<open>LBL\<close> and the pool it leaves are those of \<^verbatim>\<open>next_mix_batch()\<close>, its action
  array is the one-hot encoding of the \<^verbatim>\<open>bsz\<close> drawn actions \<open>recommend i\<close> (samples of
  \<^verbatim>\<open>randint(0, num_actions)\<close>), and there is a reward for each of the first \<^verbatim>\<open>bsz\<close> scenes.
  The reward of scene \<open>i\<close> is 0 or 1, and it is 1 exactly when the drawn action equals an
  entry of the label array of scene \<open>i\<close>. For a scene of integer labels that is: exactly
  when the action is one of the labels of the scene's components.
\<close>

theorem simulate_logged_bandit_reward:
  assumes "simulate_logged_bandit zoom onehot perm vert hor recommend bsz s
             = (Inr (IM, A, reward), s')"
    and "b = or_default bsz MNISTDataSet_bsz"
  shows "\<exists>hot LBL.
           next_mix_batch zoom (\<lambda>_. ()) perm vert hor False None None None None s
             = (Inr (IM, hot, LBL), s')
         \<and> length IM = 16 \<and> length LBL = 16
         \<and> A = onehot (map recommend [0..<nat b])
         \<and> length reward = nat b \<and> nat b \<le> length LBL
         \<and> (\<forall>i<nat b.
               (reward ! i = 0 \<or> reward ! i = 1)
             \<and> (reward ! i = 1 \<longleftrightarrow> label_in (recommend i) (LBL ! i))
             \<and> (list_all is_Scalar (LBL ! i)
                  \<longrightarrow> (reward ! i = 1 \<longleftrightarrow> Scalar (recommend i) \<in> set (LBL ! i))))"
proof -
  from simulate_rewards [OF assms] obtain hot LBL where
    m: "next_mix_batch zoom (\<lambda>_. ()) perm vert hor False None None None None s
          = (Inr (IM, hot, LBL), s')"
    and len: "length IM = 16" "length LBL = 16"
    and A: "A = onehot (map recommend [0..<nat b])"
    and l: "length reward = nat b" "nat b \<le> length LBL"
    and r: "\<forall>i<nat b. reward ! i = (if label_in (recommend i) (LBL ! i) then 1 else 0)"
    by blast
  have each: "(reward ! i = 0 \<or> reward ! i = 1)
             \<and> (reward ! i = 1 \<longleftrightarrow> label_in (recommend i) (LBL ! i))
             \<and> (list_all is_Scalar (LBL ! i)
                  \<longrightarrow> (reward ! i = 1 \<longleftrightarrow> Scalar (recommend i) \<in> set (LBL ! i)))"
    if "i < nat b" for i
  proof -
    have "reward ! i = (if label_in (recommend i) (LBL ! i) then 1 else 0)"
      using r that by simp
    then show ?thesis using label_in_scalar [of "LBL ! i" "recommend i"] by auto
  qed
  show ?thesis using m len A l each by blast
qed

subsection \<open>C10: the scenes ignore \<^verbatim>\<open>bsz\<close>\<close>

lemma simulate_after_mix:
  assumes m: "next_mix_batch zoom (\<lambda>_. ()) perm vert hor False None None None None s
                = (Inr (IM, hot, LBL), s')"
    and b: "b = or_default bsz MNISTDataSet_bsz"
  shows "length IM = 16 \<and> length LBL = 16
       \<and> (16 < b \<longrightarrow>
             simulate_logged_bandit zoom onehot perm vert hor recommend bsz s = (Inl IndexError, s'))
       \<and> (0 \<le> b \<and> b \<le> 16 \<longrightarrow>
             (\<exists>reward. simulate_logged_bandit zoom onehot perm vert hor recommend bsz s
                 = (Inr (IM, onehot (map recommend [0..<nat b]), reward), s')
               \<and> length reward = nat b))"
proof -
  let ?sim = "simulate_logged_bandit zoom onehot perm vert hor recommend bsz s"
  have d: "(16::int) = or_default None MNISTDataSet_bsz"
    "MNISTDataSet_width = or_default None MNISTDataSet_width"
    "MNISTDataSet_height = or_default None MNISTDataSet_height"
    "MNISTDataSet_num_a = or_default None MNISTDataSet_num_a"
    by (simp_all add: or_default_def MNISTDataSet_bsz_def)
  from next_mix_batch_Inr [OF m d] obtain X Y where
    f: "fold_err (mix_scene zoom X Y vert hor MNISTDataSet_width MNISTDataSet_height MNISTDataSet_num_a)
          [0..<nat 16] ([], []) = Inr (IM, LBL)" by blast
  have len: "length IM = 16" "length LBL = 16" using scene_loop [OF f] by simp_all
  have r: "randint 0 MNISTDataSet_num_actions b recommend = Inr (map recommend [0..<nat b])"
    if "0 \<le> b" using that by (simp add: randint_def MNISTDataSet_num_actions_def)
  have big: "?sim = (Inl IndexError, s')" if "16 < b"
  proof -
    have "fold_err (bandit_reward LBL (map recommend [0..<nat b])) [0..<nat b] (replicate (nat b) 0)
        = Inl IndexError"
      by (rule bandit_loop_fails) (use that len in simp_all)
    then show ?thesis
      using m r that b by (simp add: simulate_logged_bandit_def Let_def)
  qed
  have small: "\<exists>reward. ?sim = (Inr (IM, onehot (map recommend [0..<nat b]), reward), s')
                \<and> length reward = nat b" if "0 \<le> b \<and> b \<le> 16"
  proof -
    have nb: "nat b \<le> length LBL" "nat b \<le> length (map recommend [0..<nat b])"
      using that len by (simp_all add: nat_le_iff)
    from bandit_loop_succeeds [OF nb, of "replicate (nat b) 0"]
    obtain reward where
      g: "fold_err (bandit_reward LBL (map recommend [0..<nat b])) [0..<nat b] (replicate (nat b) 0)
        = Inr reward" by blast
    have "length reward = nat b" using bandit_loop [OF g] by simp
    moreover have "?sim = (Inr (IM, onehot (map recommend [0..<nat b]), reward), s')"
      using m r g that b by (simp add: simulate_logged_bandit_def Let_def)
    ultimately show ?thesis by blast
  qed
  show ?thesis using len big small by blast
qed

text \<open>
  C10. \<^verbatim>\<open>simulate_logged_bandit\<close> draws its scenes with \<^verbatim>\<open>self.next_mix_batch()\<close>, that is
  with the class default of 16 scenes, whatever its own \<^verbatim>\<open>bsz\<close> (\<open>b\<close> below: the argument,
  or the class default). So every call with \<open>b\<close> above 16 fails; when the scenes were drawn
  it fails in the reward loop with an index error, at scene 16 of 16. And every call with
  \<open>b\<close> from 0 to 16 for which the scenes were drawn returns all 16 scenes, beside \<open>b\<close>
  actions and \<open>b\<close> rewards.
\<close>
theorem simulate_logged_bandit_default_scenes:
  assumes "b = or_default bsz MNISTDataSet_bsz"
  shows "(16 < b \<longrightarrow>
            (\<exists>e. fst (simulate_logged_bandit zoom onehot perm vert hor recommend bsz s) = Inl e))
       \<and> (next_mix_batch zoom (\<lambda>_. ()) perm vert hor False None None None None s
            = (Inr (IM, hot, LBL), s') \<longrightarrow>
            length IM = 16 \<and> length LBL = 16
          \<and> (16 < b \<longrightarrow>
                simulate_logged_bandit zoom onehot perm vert hor recommend bsz s
                  = (Inl IndexError, s'))
          \<and> (0 \<le> b \<and> b \<le> 16 \<longrightarrow>
                (\<exists>reward. simulate_logged_bandit zoom onehot perm vert hor recommend bsz s
                    = (Inr (IM, onehot (map recommend [0..<nat b]), reward), s')
                  \<and> length reward = nat b)))"
proof -
  let ?sim = "simulate_logged_bandit zoom onehot perm vert hor recommend bsz s"
  let ?mix = "next_mix_batch zoom (\<lambda>_. ()) perm vert hor False None None None None s"
  have fails: "\<exists>e. fst ?sim = Inl e" if "16 < b"
  proof (cases ?mix)
    case (Pair res t)
    show ?thesis
    proof (cases res)
      case (Inl e)
      then show ?thesis using Pair by (simp add: simulate_logged_bandit_def Let_def)
    next
      case (Inr r)
      obtain IM hot LBL where "r = (IM, hot, LBL)" by (cases r)
      then have "?mix = (Inr (IM, hot, LBL), t)" using Pair Inr by simp
      from simulate_after_mix [OF this assms, of onehot recommend] that show ?thesis by simp
    qed
  qed
  show ?thesis
    using fails simulate_after_mix [OF _ assms, of zoom perm vert hor s IM hot LBL s' onehot recommend]
    by blast
qed

section \<open>The pool of 48 examples\<close>

lemma length_every_other: "length (every_other xs) = (length xs + 1) div 2"
  by (induction xs rule: every_other.induct) simp_all

lemma set_every_other: "set (every_other xs) \<subseteq> set xs"
  by (induction xs rule: every_other.induct) auto

lemma zoom_halves_subsample: "zoom_halves subsample"
proof -
  have "has_shape 14 14 (subsample x)" if "has_shape 28 28 x" for x
  proof -
    have x: "length x = 28" "\<forall>row\<in>set x. length row = 28"
      using that by (auto simp add: has_shape_def list_all_iff)
    have "length (subsample x) = 14" using x by (simp add: subsample_def length_every_other)
    moreover have "length row = 14" if "row \<in> set (subsample x)" for row
    proof -
      from that obtain r where "r \<in> set (every_other x)" "row = every_other r"
        by (auto simp add: subsample_def)
      then show ?thesis using x set_every_other [of x] by (auto simp add: length_every_other)
    qed
    ultimately show ?thesis by (simp add: has_shape_def list_all_iff)
  qed
  then show ?thesis by (simp add: zoom_halves_def)
qed

lemma pool48_facts:
  "wf_pool pool48" "\<forall>x\<in>set (images pool48). length x = 784" "0 \<le> index_in_epoch pool48"
  "is_shuffle (num_examples pool48) [0..<48]" "num_examples pool48 = 48"
  by (simp_all add: wf_pool_def pool48_def is_shuffle_def)

lemma default_draws:
  "\<forall>b::nat. in_range 0 (max (45 div 3 - width2) 1) (\<lambda>n. 0)"
  "\<forall>b::nat. in_range 0 (45 - width2) (\<lambda>n. int ((b + n) mod 31))"
  by (simp_all add: in_range_def width2_def)

lemma defaults:
  "or_default None MNISTDataSet_bsz = 16" "or_default None MNISTDataSet_width = 45"
  "or_default None MNISTDataSet_height = 45" "or_default None MNISTDataSet_num_a = 3"
  by (simp_all add: or_default_def MNISTDataSet_bsz_def MNISTDataSet_width_def
      MNISTDataSet_height_def MNISTDataSet_num_a_def)

lemma next_batch_pool48:
  "next_batch [0..<48] (Some 48) False pool48
     = (Inr (images pool48, labels pool48), pool48\<lparr>index_in_epoch := 48\<rparr>)"
  by (simp add: next_batch_def next_batch_range_def or_default_def py_slice_def slice_index_def
      pool48_def Let_def)

text \<open>The default call on the pool of 48 returns, with the labels taken three by three.\<close>

lemma next_mix_batch_pool48:
  "\<exists>IMS. next_mix_batch subsample (\<lambda>_. ()) [0..<48] (\<lambda>b n. 0) (\<lambda>b n. int ((b + n) mod 31))
            False None None None None pool48
     = (Inr (IMS, None,
             map (\<lambda>b. map (\<lambda>n. labels pool48 ! nat (int b * 3 + int n)) [0..<nat 3]) [0..<nat 16]),
        pool48\<lparr>index_in_epoch := 48\<rparr>)"
proof -
  have n: "(16::int) * 3 \<le> num_examples pool48" by (simp add: pool48_facts(5))
  have w: "(14::int) \<le> 45" "(14::int) < 45" "(1::int) \<le> 16" "(0::int) \<le> 3" "(3::int) \<le> 3"
    by simp_all
  from next_mix_batch_succeeds [where s = pool48 and perm = "[0..<48]" and zoom = subsample
      and B = 16 and W = 45 and H = 45 and K = 3 and bsz = None and width = None and height = None
      and NUM = None and vert = "\<lambda>b n. 0" and hor = "\<lambda>b n. int ((b + n) mod 31)"
      and make_hot = False and nhot = "\<lambda>_. ()",
      OF pool48_facts(1,2,3,4) zoom_halves_subsample defaults [symmetric] w(3,4,5) n w(1,2)
        default_draws]
  obtain X Y IMS LBLS s' where
    nb: "next_batch [0..<48] (Some (16 * 3)) False pool48 = (Inr (X, Y), s')"
    and l: "LBLS = map (\<lambda>b. map (\<lambda>n. Y ! nat (int b * 3 + int n)) [0..<nat 3]) [0..<nat 16]"
    and m: "next_mix_batch subsample (\<lambda>_. ()) [0..<48] (\<lambda>b n. 0) (\<lambda>b n. int ((b + n) mod 31))
              False None None None None pool48
            = (Inr (IMS, if False then Some () else None, LBLS), s')"
    by blast
  have y: "Y = labels pool48" "s' = pool48\<lparr>index_in_epoch := 48\<rparr>"
    using nb next_batch_pool48 by simp_all
  show ?thesis
    by (rule exI [of _ IMS]) (use m in \<open>simp only: l y if_False\<close>)
qed

section \<open>Witnesses on the pool of 48 examples\<close>

theorem next_mix_batch_in_bounds_witness:
  "\<exists>IMS LBLS.
     next_mix_batch subsample (\<lambda>_. ()) [0..<48] (\<lambda>b n. 0) (\<lambda>b n. int ((b + n) mod 31))
       False None None None None pool48
       = (Inr (IMS, None, LBLS), pool48\<lparr>index_in_epoch := 48\<rparr>)
     \<and> length IMS = 16 \<and> length LBLS = 16
     \<and> list_all (\<lambda>l. length l = 3) LBLS \<and> list_all (has_shape 45 45) IMS
     \<and> 0 \<le> int ((15 + 2) mod 31) \<and> int ((15 + 2) mod 31) + width2 \<le> 45
     \<and> 0 \<le> min (0 + width2 * int 2) (45 - width2)
     \<and> min (0 + width2 * int 2) (45 - width2) + width2 \<le> 45"
proof -
  from next_mix_batch_pool48 obtain IMS LBLS where
    m: "next_mix_batch subsample (\<lambda>_. ()) [0..<48] (\<lambda>b n. 0) (\<lambda>b n. int ((b + n) mod 31))
       False None None None None pool48
       = (Inr (IMS, None, LBLS), pool48\<lparr>index_in_epoch := 48\<rparr>)"
    by blast
  note t = next_mix_batch_in_bounds [OF zoom_halves_subsample defaults [symmetric] default_draws,
      THEN conjunct2, THEN mp, OF m]
  have a: "length IMS = 16" "length LBLS = 16" using t by simp_all
  have b: "list_all (\<lambda>l. length l = 3) LBLS" "list_all (has_shape 45 45) IMS"
    using t by (simp_all add: list_all_iff)
  have "(15::nat) < nat 16" "(2::nat) < nat 3" by simp_all
  with t have "0 \<le> int ((15 + 2) mod 31) \<and> int ((15 + 2) mod 31) + width2 \<le> 45
     \<and> 0 \<le> min (0 + width2 * int 2) (45 - width2)
     \<and> min (0 + width2 * int 2) (45 - width2) + width2 \<le> 45"
    by blast
  with m a b show ?thesis by blast
qed

theorem next_mix_batch_three_bands_witness:
  "fst (next_mix_batch subsample (\<lambda>_. ()) [0..<48] (\<lambda>b n. 0) (\<lambda>b n. int ((b + n) mod 31))
          False (Some 2) None None (Some 4) pool48) = Inl IndexError"
proof -
  have k: "(4::int) = or_default (Some 4) MNISTDataSet_num_a" "(3::int) < 4"
    "(2::int) = or_default (Some 2) MNISTDataSet_bsz"
    by (simp_all add: or_default_def)
  note t = next_mix_batch_three_bands [OF k(1,2,3) defaults(2,3) [symmetric],
      of subsample "\<lambda>_. ()" "[0..<48]" "\<lambda>b n. 0" "\<lambda>b n. int ((b + n) mod 31)" False pool48]
  have "(1::int) \<le> 2 \<and> (2::int) * 4 \<le> num_examples pool48 \<and> (14::int) \<le> 45 \<and> (14::int) < 45"
    by (simp add: pool48_facts(5))
  with t pool48_facts(1,2,3,4) zoom_halves_subsample default_draws show ?thesis by blast
qed

lemma scenes_pool48:
  "map (\<lambda>b. map (\<lambda>n. labels pool48 ! nat (int b * 3 + int n)) [0..<nat 3]) [0..<nat 16] ! 0
     = [Scalar 0, Scalar 1, Scalar 2]"
  "map (\<lambda>b. map (\<lambda>n. labels pool48 ! nat (int b * 3 + int n)) [0..<nat 3]) [0..<nat 16] ! 1
     = [Scalar 3, Scalar 4, Scalar 5]"
  by code_simp+

theorem simulate_logged_bandit_reward_witness:
  "\<exists>IM reward s'.
     simulate_logged_bandit subsample (\<lambda>a. a) [0..<48] (\<lambda>b n. 0) (\<lambda>b n. int ((b + n) mod 31))
       (\<lambda>i. int i) (Some 5) pool48 = (Inr (IM, map int [0..<5], reward), s')
     \<and> length reward = 5 \<and> reward ! 0 = 1 \<and> reward ! 1 = 0"
proof -
  from next_mix_batch_pool48 obtain IMS where
    m: "next_mix_batch subsample (\<lambda>_. ()) [0..<48] (\<lambda>b n. 0) (\<lambda>b n. int ((b + n) mod 31))
       False None None None None pool48
       = (Inr (IMS, None,
               map (\<lambda>b. map (\<lambda>n. labels pool48 ! nat (int b * 3 + int n)) [0..<nat 3]) [0..<nat 16]),
          pool48\<lparr>index_in_epoch := 48\<rparr>)"
    by blast
  have b: "(5::int) = or_default (Some 5) MNISTDataSet_bsz" by (simp add: or_default_def)
  from simulate_after_mix [OF m b, of "\<lambda>a. a" "\<lambda>i. int i"] obtain reward where
    s: "simulate_logged_bandit subsample (\<lambda>a. a) [0..<48] (\<lambda>b n. 0) (\<lambda>b n. int ((b + n) mod 31))
       (\<lambda>i. int i) (Some 5) pool48
       = (Inr (IMS, map int [0..<nat 5], reward), pool48\<lparr>index_in_epoch := 48\<rparr>)"
    by auto
  from simulate_logged_bandit_reward [OF s b] obtain hot LBL where
    m': "next_mix_batch subsample (\<lambda>_. ()) [0..<48] (\<lambda>b n. 0) (\<lambda>b n. int ((b + n) mod 31))
       False None None None None pool48 = (Inr (IMS, hot, LBL), pool48\<lparr>index_in_epoch := 48\<rparr>)"
    and l: "length reward = nat 5"
    and r: "\<forall>i<nat 5. (reward ! i = 1 \<longleftrightarrow> label_in (int i) (LBL ! i))"
    by blast
  have LBL: "LBL = map (\<lambda>b. map (\<lambda>n. labels pool48 ! nat (int b * 3 + int n)) [0..<nat 3]) [0..<nat 16]"
    using m m' by simp
  have "label_in (int 0) (LBL ! 0)" "\<not> label_in (int 1) (LBL ! 1)"
    unfolding LBL scenes_pool48 by (simp_all add: label_in_def)
  moreover have "(0::nat) < nat 5" "(1::nat) < nat 5" by simp_all
  ultimately have "reward ! 0 = 1" "reward ! 1 \<noteq> 1" using r by blast+
  moreover have "reward ! 1 = 0 \<or> reward ! 1 = 1"
    using simulate_logged_bandit_reward [OF s b] \<open>1 < nat 5\<close> by blast
  ultimately have "reward ! 0 = 1" "reward ! 1 = 0" by simp_all
  moreover have "map int [0..<nat 5] = map int [0..<5]" by simp
  ultimately show ?thesis using s l by auto
qed

theorem simulate_logged_bandit_default_scenes_witness:
  "fst (simulate_logged_bandit subsample (\<lambda>a. a) [0..<48] (\<lambda>b n. 0) (\<lambda>b n. int ((b + n) mod 31))
          (\<lambda>i. int i) (Some 17) pool48) = Inl IndexError
   \<and> (\<exists>IM reward s'.
         simulate_logged_bandit subsample (\<lambda>a. a) [0..<48] (\<lambda>b n. 0) (\<lambda>b n. int ((b + n) mod 31))
           (\<lambda>i. int i) (Some 5) pool48 = (Inr (IM, map int [0..<5], reward), s')
       \<and> length IM = 16 \<and> length reward = 5)"
proof -
  from next_mix_batch_pool48 obtain IMS LBL where
    m: "next_mix_batch subsample (\<lambda>_. ()) [0..<48] (\<lambda>b n. 0) (\<lambda>b n. int ((b + n) mod 31))
       False None None None None pool48 = (Inr (IMS, None, LBL), pool48\<lparr>index_in_epoch := 48\<rparr>)"
    by blast
  have b: "(17::int) = or_default (Some 17) MNISTDataSet_bsz"
    "(5::int) = or_default (Some 5) MNISTDataSet_bsz" by (simp_all add: or_default_def)
  have big: "fst (simulate_logged_bandit subsample (\<lambda>a. a) [0..<48] (\<lambda>b n. 0)
      (\<lambda>b n. int ((b + n) mod 31)) (\<lambda>i. int i) (Some 17) pool48) = Inl IndexError"
    using simulate_logged_bandit_default_scenes [OF b(1), of subsample "\<lambda>a. a" "[0..<48]" "\<lambda>b n. 0"
        "\<lambda>b n. int ((b + n) mod 31)" "\<lambda>i. int i" pool48 IMS None LBL "pool48\<lparr>index_in_epoch := 48\<rparr>"] m
    by simp
  have "\<exists>reward. simulate_logged_bandit subsample (\<lambda>a. a) [0..<48] (\<lambda>b n. 0)
      (\<lambda>b n. int ((b + n) mod 31)) (\<lambda>i. int i) (Some 5) pool48
        = (Inr (IMS, map int [0..<nat 5], reward), pool48\<lparr>index_in_epoch := 48\<rparr>)
      \<and> length reward = nat 5 \<and> length IMS = 16"
    using simulate_logged_bandit_default_scenes [OF b(2), of subsample "\<lambda>a. a" "[0..<48]" "\<lambda>b n. 0"
        "\<lambda>b n. int ((b + n) mod 31)" "\<lambda>i. int i" pool48 IMS None LBL "pool48\<lparr>index_in_epoch := 48\<rparr>"] m
    by auto
  then show ?thesis using big by auto
qed

section \<open>The pool of 48 one-hot examples\<close>

lemma pool48h_facts:
  "wf_pool pool48h" "\<forall>x\<in>set (images pool48h). length x = 784" "0 \<le> index_in_epoch pool48h"
  "is_shuffle (num_examples pool48h) [0..<48]" "num_examples pool48h = 48"
  by (simp_all add: wf_pool_def pool48h_def is_shuffle_def)

lemma next_batch_pool48h:
  "next_batch [0..<48] (Some 48) False pool48h
     = (Inr (images pool48h, labels pool48h), pool48h\<lparr>index_in_epoch := 48\<rparr>)"
  by (simp add: next_batch_def next_batch_range_def or_default_def py_slice_def slice_index_def
      pool48h_def Let_def)

lemma next_mix_batch_pool48h:
  "\<exists>IMS. next_mix_batch subsample (\<lambda>_. ()) [0..<48] (\<lambda>b n. 0) (\<lambda>b n. int ((b + n) mod 31))
            False None None None None pool48h
     = (Inr (IMS, None,
             map (\<lambda>b. map (\<lambda>n. labels pool48h ! nat (int b * 3 + int n)) [0..<nat 3]) [0..<nat 16]),
        pool48h\<lparr>index_in_epoch := 48\<rparr>)"
proof -
  have n: "(16::int) * 3 \<le> num_examples pool48h" by (simp add: pool48h_facts(5))
  have w: "(14::int) \<le> 45" "(14::int) < 45" "(1::int) \<le> 16" "(0::int) \<le> 3" "(3::int) \<le> 3"
    by simp_all
  from next_mix_batch_succeeds [where s = pool48h and perm = "[0..<48]" and zoom = subsample
      and B = 16 and W = 45 and H = 45 and K = 3 and bsz = None and width = None and height = None
      and NUM = None and vert = "\<lambda>b n. 0" and hor = "\<lambda>b n. int ((b + n) mod 31)"
      and make_hot = False and nhot = "\<lambda>_. ()",
      OF pool48h_facts(1,2,3,4) zoom_halves_subsample defaults [symmetric] w(3,4,5) n w(1,2)
        default_draws]
  obtain X Y IMS LBLS s' where
    nb: "next_batch [0..<48] (Some (16 * 3)) False pool48h = (Inr (X, Y), s')"
    and l: "LBLS = map (\<lambda>b. map (\<lambda>n. Y ! nat (int b * 3 + int n)) [0..<nat 3]) [0..<nat 16]"
    and m: "next_mix_batch subsample (\<lambda>_. ()) [0..<48] (\<lambda>b n. 0) (\<lambda>b n. int ((b + n) mod 31))
              False None None None None pool48h
            = (Inr (IMS, if False then Some () else None, LBLS), s')"
    by blast
  have y: "Y = labels pool48h" "s' = pool48h\<lparr>index_in_epoch := 48\<rparr>"
    using nb next_batch_pool48h by simp_all
  show ?thesis
    by (rule exI [of _ IMS]) (use m in \<open>simp only: l y if_False\<close>)
qed

lemma scene1_pool48h:
  "map (\<lambda>b. map (\<lambda>n. labels pool48h ! nat (int b * 3 + int n)) [0..<nat 3]) [0..<nat 16] ! 1
     = [OneHot [0, 0, 0, 1, 0, 0, 0, 0, 0, 0], OneHot [0, 0, 0, 0, 1, 0, 0, 0, 0, 0],
        OneHot [0, 0, 0, 0, 0, 1, 0, 0, 0, 0]]"
  by code_simp

text \<open>
  C5 as stated fails on a pool of one-hot labels. Scene 1 of the default call on the
  one-hot pool of 48 examples holds the classes 3, 4 and 5. Its label array holds zeros
  and ones, so the action 1 is found in it and is rewarded, though class 1 is not in the
  scene; and the action 3 is not found and is not rewarded, though class 3 is.
\<close>
theorem simulate_logged_bandit_one_hot_counterexample:
  "\<exists>IM LBL s'.
     next_mix_batch subsample (\<lambda>_. ()) [0..<48] (\<lambda>b n. 0) (\<lambda>b n. int ((b + n) mod 31))
       False None None None None pool48h = (Inr (IM, None, LBL), s')
   \<and> LBL ! 1 = [OneHot [0, 0, 0, 1, 0, 0, 0, 0, 0, 0], OneHot [0, 0, 0, 0, 1, 0, 0, 0, 0, 0],
                OneHot [0, 0, 0, 0, 0, 1, 0, 0, 0, 0]]
   \<and> (\<exists>reward.
         simulate_logged_bandit subsample (\<lambda>a. a) [0..<48] (\<lambda>b n. 0) (\<lambda>b n. int ((b + n) mod 31))
           (\<lambda>i. 1) (Some 2) pool48h = (Inr (IM, [1, 1], reward), s')
       \<and> reward ! 1 = 1)
   \<and> (\<exists>reward.
         simulate_logged_bandit subsample (\<lambda>a. a) [0..<48] (\<lambda>b n. 0) (\<lambda>b n. int ((b + n) mod 31))
           (\<lambda>i. 3) (Some 2) pool48h = (Inr (IM, [3, 3], reward), s')
       \<and> reward ! 1 = 0)"
proof -
  define LBL where
    "LBL = map (\<lambda>b. map (\<lambda>n. labels pool48h ! nat (int b * 3 + int n)) [0..<nat 3]) [0..<nat 16]"
  from next_mix_batch_pool48h obtain IM where
    m: "next_mix_batch subsample (\<lambda>_. ()) [0..<48] (\<lambda>b n. 0) (\<lambda>b n. int ((b + n) mod 31))
       False None None None None pool48h = (Inr (IM, None, LBL), pool48h\<lparr>index_in_epoch := 48\<rparr>)"
    unfolding LBL_def by blast
  have s1: "LBL ! 1 = [OneHot [0, 0, 0, 1, 0, 0, 0, 0, 0, 0], OneHot [0, 0, 0, 0, 1, 0, 0, 0, 0, 0],
                OneHot [0, 0, 0, 0, 0, 1, 0, 0, 0, 0]]"
    unfolding LBL_def by (rule scene1_pool48h)
  have b: "(2::int) = or_default (Some 2) MNISTDataSet_bsz" by (simp add: or_default_def)
  have run: "\<exists>reward.
         simulate_logged_bandit subsample (\<lambda>a. a) [0..<48] (\<lambda>b n. 0) (\<lambda>b n. int ((b + n) mod 31))
           (\<lambda>i. a) (Some 2) pool48h = (Inr (IM, [a, a], reward), pool48h\<lparr>index_in_epoch := 48\<rparr>)
       \<and> reward ! 1 = (if label_in a (LBL ! 1) then 1 else 0)" for a :: int
  proof -
    from simulate_after_mix [OF m b, of "\<lambda>a. a" "\<lambda>i. a"] obtain reward where
      s: "simulate_logged_bandit subsample (\<lambda>a. a) [0..<48] (\<lambda>b n. 0) (\<lambda>b n. int ((b + n) mod 31))
         (\<lambda>i. a) (Some 2) pool48h
         = (Inr (IM, map (\<lambda>i. a) [0..<nat 2], reward), pool48h\<lparr>index_in_epoch := 48\<rparr>)"
      by auto
    from simulate_rewards [OF s b] obtain hot L where
      m': "next_mix_batch subsample (\<lambda>_. ()) [0..<48] (\<lambda>b n. 0) (\<lambda>b n. int ((b + n) mod 31))
         False None None None None pool48h = (Inr (IM, hot, L), pool48h\<lparr>index_in_epoch := 48\<rparr>)"
      and r: "\<forall>i<nat 2. reward ! i = (if label_in a (L ! i) then 1 else 0)"
      by blast
    have "L = LBL" using m m' by simp
    moreover have "(1::nat) < nat 2" by simp
    ultimately have "reward ! 1 = (if label_in a (LBL ! 1) then 1 else 0)" using r by blast
    moreover have "map (\<lambda>i. a) [0..<nat 2] = [a, a]" by (simp add: upt_rec)
    ultimately show ?thesis using s by auto
  qed
  have "label_in 1 (LBL ! 1)" "\<not> label_in 3 (LBL ! 1)"
    unfolding s1 by (simp_all add: label_in_def)
  with run [of 1] run [of 3] m s1 show ?thesis by auto
qed

end
